theory Spec2Isabelle
  imports Complex_Main "HOL-Library.Log_Nat"
begin

section \<open>Exceptions and JSON documents\<close>

text \<open>
  The provisioner is one Python 3 script, \<^verbatim>\<open>hydra_provisioner/__main__.py\<close>. Every
  exception that the script lets escape ends the run; it is a value \<open>Inl e\<close> of the
  result type \<open>error + 'a\<close>.
\<close>

datatype error =
    ValueError | KeyError | TypeError | RuntimeError | AssertionError
  | ZeroDivisionError | OverflowError | AttributeError

text \<open>
  What \<^verbatim>\<open>json.loads\<close> returns. Objects keep their members in the order of the document
  (a Python 3 dict keeps insertion order).
\<close>

datatype json =
    JNull | JBool bool | JInt int | JStr string
  | JList "json list" | JObj "(string \<times> json) list"

text \<open>Python's truth value of a parsed document (\<^verbatim>\<open>not status\<close>).\<close>

fun truthy :: "json \<Rightarrow> bool" where
  "truthy JNull = False"
| "truthy (JBool b) = b"
| "truthy (JInt i) = (i \<noteq> 0)"
| "truthy (JStr s) = (s \<noteq> [])"
| "truthy (JList xs) = (xs \<noteq> [])"
| "truthy (JObj kvs) = (kvs \<noteq> [])"

text \<open>\<^verbatim>\<open>doc[key]\<close> with a string key: only an object can answer, and only for a key it has.\<close>

fun subscript :: "json \<Rightarrow> string \<Rightarrow> error + json" where
  "subscript (JObj kvs) k = (case map_of kvs k of None \<Rightarrow> Inl KeyError | Some v \<Rightarrow> Inr v)"
| "subscript _ k = Inl TypeError"

section \<open>The data model\<close>

text \<open>
  \<^verbatim>\<open>nixops.resources.ResourceState\<close>, the lifecycle states of a resource of the
  deployment engine. The script names \<open>MISSING\<close>, \<open>STARTING\<close>, \<open>UP\<close> and
  \<open>STOPPED\<close>.
\<close>

datatype ResourceState =
  UNKNOWN | MISSING | STARTING | UP | STOPPING | STOPPED | UNREACHABLE | RESCUE

text \<open>
  The machine of a deployment, as the script reads it: \<^verbatim>\<open>m.state\<close>,
  \<^verbatim>\<open>m.get_ssh_name()\<close>, \<^verbatim>\<open>m.public_host_key\<close> (bytes, or nothing) and
  \<^verbatim>\<open>m.next_charge_time()\<close> (unix seconds, or nothing).
\<close>

record machine_state =
  state :: ResourceState
  ssh_name :: string
  public_host_key :: "string option"
  next_charge_time :: "int option"

text \<open>
  A deployment object. \<open>uuid\<close> is its identity (Python compares and hashes the objects
  by identity); \<open>machine\<close> is \<^verbatim>\<open>depl.machines.get("machine", None)\<close>.
\<close>

record deployment =
  uuid :: nat
  name :: string
  args :: "(string \<times> string) list"
  machine :: "machine_state option"
  nix_exprs :: "string list"
  nix_path :: "string list"

text \<open>
  An entry of \<^verbatim>\<open>config["systemTypes"]\<close>. Every key but \<^verbatim>\<open>nixopsExpr\<close> is read with
  \<^verbatim>\<open>.get(key, default)\<close>, so it is optional here. An entry always has its recipe, so it
  is never the empty dict that \<^verbatim>\<open>if not type_config\<close> would take for a missing one.
\<close>

record type_config =
  nixopsExpr :: string
  nixPath :: "string list option"
  runnablesPerMachine :: "int option"
  ignoredRunnables :: "int option"
  minMachines :: "int option"
  maxMachines :: "int option"
  gracePeriod :: "int option"
  stopOnIdle :: "bool option"
  sshKey :: "string option"
  maxJobs :: "int option"
  speedFactor :: "int option"

record config =
  tag :: string
  systemTypes :: "(string \<times> type_config) list"

text \<open>The dispatcher status once parsed: the members the script reads after line 75.\<close>

record type_status =
  runnable :: int
  lastActive :: "int option"

record machine_status =
  currentJobs :: "int option"

record dispatcher_status =
  machineTypes :: "(string \<times> type_status) list"
  machines :: "(string \<times> machine_status) list"
  uptime :: int

text \<open>\<^verbatim>\<open>d.get(key, default)\<close> on an optional member.\<close>

fun get_or :: "'a option \<Rightarrow> 'a \<Rightarrow> 'a" where
  "get_or None d = d"
| "get_or (Some v) d = v"

text \<open>
  The sets of the script hold deployment objects, here their identities. \<^verbatim>\<open>in_use\<close>
  is filled by the selection and by the retention.
\<close>

record kept =
  in_use :: "nat set"

section \<open>Naming a new deployment (lines 22 to 30)\<close>

text \<open>\<^verbatim>\<open>str(i)\<close> for a natural number: its decimal digits.\<close>

definition digit_char :: "nat \<Rightarrow> char" where
  "digit_char d = ''0123456789'' ! d"

fun str_nat :: "nat \<Rightarrow> string" where
  "str_nat n = (if n < 10 then [digit_char n] else str_nat (n div 10) @ [digit_char (n mod 10)])"

declare str_nat.simps [simp del]

text \<open>Reading the digits back, to see that different numbers are written differently.\<close>

definition digit_value :: "char \<Rightarrow> nat" where
  "digit_value c = of_char c - 48"

definition nat_of_str :: "string \<Rightarrow> nat" where
  "nat_of_str s = foldl (\<lambda>a c. 10 * a + digit_value c) 0 s"

lemma digit_value_char: "d < 10 \<Longrightarrow> digit_value (digit_char d) = d"
proof -
  assume "d < 10"
  then have "d \<in> {0, 1, 2, 3, 4, 5, 6, 7, 8, 9}"
    by auto
  then show ?thesis
    by (auto simp: digit_value_def digit_char_def)
qed

lemma nat_of_str_nat: "nat_of_str (str_nat n) = n"
proof (induction n rule: str_nat.induct)
  case (1 n)
  show ?case
  proof (cases "n < 10")
    case True
    then show ?thesis
      by (simp add: str_nat.simps [of n] nat_of_str_def digit_value_char)
  next
    case False
    with 1 have "nat_of_str (str_nat (n div 10)) = n div 10"
      by simp
    with False show ?thesis
      by (simp add: str_nat.simps [of n] nat_of_str_def digit_value_char)
  qed
qed

lemma str_nat_inj: "str_nat i = str_nat j \<Longrightarrow> i = j"
  by (metis nat_of_str_nat)

text \<open>The name tried in round \<open>i\<close> of the loop: \<^verbatim>\<open>prefix + "-" + str(i)\<close>.\<close>

definition candidate :: "string \<Rightarrow> nat \<Rightarrow> string" where
  "candidate prefix i = prefix @ ''-'' @ str_nat i"

lemma candidate_inj: "candidate p i = candidate p j \<Longrightarrow> i = j"
  by (simp add: candidate_def str_nat_inj)

text \<open>
  The loop \<^verbatim>\<open>while True\<close> ends because only finitely many names are taken: the taken
  names that a later round could still try become fewer with every round.
\<close>

definition taken_from :: "string \<Rightarrow> string list \<Rightarrow> nat \<Rightarrow> string set" where
  "taken_from prefix names i = {n \<in> set names. \<exists>j\<ge>i. n = candidate prefix j}"

lemma taken_from_less:
  assumes "candidate prefix i \<in> set names"
  shows "card (taken_from prefix names (Suc i)) < card (taken_from prefix names i)"
proof (rule psubset_card_mono)
  show "finite (taken_from prefix names i)"
    by (simp add: taken_from_def)
  have "candidate prefix i \<in> taken_from prefix names i"
    using assms by (auto simp: taken_from_def)
  moreover have "candidate prefix i \<notin> taken_from prefix names (Suc i)"
    by (auto simp: taken_from_def dest: candidate_inj)
  moreover have "taken_from prefix names (Suc i) \<subseteq> taken_from prefix names i"
    by (auto simp: taken_from_def intro: Suc_leD)
  ultimately show "taken_from prefix names (Suc i) \<subset> taken_from prefix names i"
    by blast
qed

function find_name :: "string \<Rightarrow> string list \<Rightarrow> nat \<Rightarrow> string" where
  "find_name prefix names i =
     (let name = candidate prefix i
      in if name \<notin> set names then name else find_name prefix names (i + 1))"
  by pat_completeness auto
termination
  by (relation "measure (\<lambda>(prefix, names, i). card (taken_from prefix names i))")
     (auto simp: taken_from_less)

declare find_name.simps [simp del]

definition get_new_deployment_name :: "string \<Rightarrow> deployment list \<Rightarrow> string" where
  "get_new_deployment_name prefix ds = find_name prefix (map name ds) 0"

section \<open>The helper functions (lines 32 to 45)\<close>

text \<open>\<^verbatim>\<open>get_depl_arg\<close> drops every double quote (character 0x22) from the argument.\<close>

definition get_depl_arg :: "deployment \<Rightarrow> string \<Rightarrow> string \<Rightarrow> string" where
  "get_depl_arg depl key dflt =
     filter (\<lambda>c. c \<noteq> CHR 0x22) (get_or (map_of (args depl) key) dflt)"

text \<open>
  \<open>now\<close> is the clock reading \<^verbatim>\<open>int(time.time())\<close>. The script reads the clock
  several times while it looks at one deployment; the readings are taken to give the
  same second.
\<close>

definition get_depl_time_left :: "int \<Rightarrow> deployment \<Rightarrow> int" where
  "get_depl_time_left now depl =
     (case machine depl of
        None \<Rightarrow> 0
      | Some m \<Rightarrow>
          (case next_charge_time m of
             None \<Rightarrow> 0
           | Some t \<Rightarrow> if t = 0 then 0 else max (t - now) 0))"

definition depl_state :: "deployment \<Rightarrow> ResourceState" where
  "depl_state depl = (case machine depl of None \<Rightarrow> MISSING | Some m \<Rightarrow> state m)"

section \<open>Fetching the dispatcher status (lines 68 to 75)\<close>

text \<open>
  The three outcomes of \<^verbatim>\<open>json.loads(subprocess.check_output(status_command))\<close>: the
  command exits non-zero (\<^verbatim>\<open>CalledProcessError\<close>), its output is not JSON
  (\<^verbatim>\<open>json.loads\<close> raises \<^verbatim>\<open>ValueError\<close>), or a document is parsed.
\<close>

datatype status_output = NonZeroExit | Unparseable | Parsed json

definition down_status :: json where
  "down_status =
     JObj [(''status'', JStr ''down''), (''machineTypes'', JObj []),
           (''machines'', JObj []), (''uptime'', JInt 0)]"

text \<open>
  The \<^verbatim>\<open>try\<close> block catches \<^verbatim>\<open>subprocess.CalledProcessError\<close> only, and sets
  \<^verbatim>\<open>status = None\<close> there.
\<close>

definition load_status :: "status_output \<Rightarrow> error + json" where
  "load_status out =
     (case out of
        NonZeroExit \<Rightarrow> Inr JNull
      | Unparseable \<Rightarrow> Inl ValueError
      | Parsed j \<Rightarrow> Inr j)"

definition get_status :: "status_output \<Rightarrow> error + json" where
  "get_status out =
     (case load_status out of
        Inl e \<Rightarrow> Inl e
      | Inr status \<Rightarrow>
          if \<not> truthy status then Inr down_status
          else (case subscript status ''status'' of
                  Inl e \<Rightarrow> Inl e
                | Inr s \<Rightarrow> if s = JStr ''down'' then Inr down_status else Inr status))"

section \<open>Folding i686-linux into x86_64-linux (lines 79 to 87)\<close>

text \<open>
  The loop deletes from \<^verbatim>\<open>status["machineTypes"]\<close>, and may add to it, while it
  iterates over \<^verbatim>\<open>.keys()\<close>, which in Python 3 is a view of the dict and no copy.
  So the dict is modelled with the iterator that CPython (3.8 and later) gives it: the
  entries in the order of insertion, a deleted entry leaving an empty slot, a new key
  going to the end.
\<close>

type_synonym 'v pydict = "(string \<times> 'v) option list"

definition dict_len :: "'v pydict \<Rightarrow> nat" where
  "dict_len d = length (filter (\<lambda>e. e \<noteq> None) d)"

definition dict_items :: "'v pydict \<Rightarrow> (string \<times> 'v) list" where
  "dict_items d = concat (map (\<lambda>e. case e of None \<Rightarrow> [] | Some kv \<Rightarrow> [kv]) d)"

definition dict_get :: "'v pydict \<Rightarrow> string \<Rightarrow> 'v option" where
  "dict_get d k = map_of (dict_items d) k"

definition has_key :: "string \<Rightarrow> (string \<times> 'v) option \<Rightarrow> bool" where
  "has_key k e = (case e of None \<Rightarrow> False | Some (k', v) \<Rightarrow> k' = k)"

definition dict_set :: "string \<Rightarrow> 'v \<Rightarrow> 'v pydict \<Rightarrow> 'v pydict" where
  "dict_set k v d =
     (if list_ex (has_key k) d
      then map (\<lambda>e. if has_key k e then Some (k, v) else e) d
      else d @ [Some (k, v)])"

definition dict_del :: "string \<Rightarrow> 'v pydict \<Rightarrow> 'v pydict" where
  "dict_del k d = map (\<lambda>e. if has_key k e then None else e) d"

text \<open>The dict that \<^verbatim>\<open>json.loads\<close> builds from the members of an object: no empty slot.\<close>

definition dict_of :: "(string \<times> 'v) list \<Rightarrow> 'v pydict" where
  "dict_of kvs = map Some kvs"

text \<open>The next key from position \<open>pos\<close> on, skipping empty slots, with its position.\<close>

fun first_live :: "nat \<Rightarrow> 'v pydict \<Rightarrow> (nat \<times> string) option" where
  "first_live i [] = None"
| "first_live i (None # es) = first_live (i + 1) es"
| "first_live i (Some (k, v) # es) = Some (i, k)"

definition next_entry :: "nat \<Rightarrow> 'v pydict \<Rightarrow> (nat \<times> string) option" where
  "next_entry pos d = first_live pos (drop pos d)"

text \<open>\<^verbatim>\<open>s.startswith(p)\<close> and \<^verbatim>\<open>s.replace(old, new)\<close>, for an \<open>old\<close> that is not empty.\<close>

definition startswith :: "string \<Rightarrow> string \<Rightarrow> bool" where
  "startswith s p \<longleftrightarrow> take (length p) s = p"

fun replace_all :: "string \<Rightarrow> string \<Rightarrow> string \<Rightarrow> string" where
  "replace_all old new [] = []"
| "replace_all old new (c # cs) =
     (if old \<noteq> [] \<and> startswith (c # cs) old
      then new @ replace_all old new (drop (length old) (c # cs))
      else c # replace_all old new cs)"

text \<open>The body of the loop for one key.\<close>

definition squash :: "string \<Rightarrow> type_status pydict \<Rightarrow> error + type_status pydict" where
  "squash type_name d =
     (if startswith type_name ''i686-linux'' then
        let target_name = replace_all ''i686-linux'' ''x86_64-linux'' type_name
        in (case dict_get d type_name of
              None \<Rightarrow> Inl KeyError
            | Some type_status \<Rightarrow>
                (case dict_get d target_name of
                   Some target \<Rightarrow>
                     Inr (dict_del type_name
                            (dict_set target_name
                               (target\<lparr>runnable := runnable target + runnable type_status\<rparr>) d))
                 | None \<Rightarrow> Inr (dict_del type_name (dict_set target_name type_status d))))
      else Inr d)"

text \<open>
  The loop, one call for every \<^verbatim>\<open>next\<close> on the iterator. \<open>used\<close> is the size of the
  dict when the iterator was made, \<open>len\<close> the number of keys it has still to give and
  \<open>pos\<close> its position. The iterator raises \<^verbatim>\<open>RuntimeError\<close> ("dictionary changed size
  during iteration") when the dict has another size than \<open>used\<close>, and ("dictionary keys
  changed during iteration") when it finds a key after having given \<open>used\<close> keys.
\<close>

fun squash_loop ::
  "nat \<Rightarrow> nat \<Rightarrow> nat \<Rightarrow> type_status pydict \<Rightarrow> error + type_status pydict" where
  "squash_loop used 0 pos d =
     (if dict_len d \<noteq> used then Inl RuntimeError
      else (case next_entry pos d of
              None \<Rightarrow> Inr d
            | Some (i, type_name) \<Rightarrow> Inl RuntimeError))"
| "squash_loop used (Suc len) pos d =
     (if dict_len d \<noteq> used then Inl RuntimeError
      else (case next_entry pos d of
              None \<Rightarrow> Inr d
            | Some (i, type_name) \<Rightarrow>
                (case squash type_name d of
                   Inl e \<Rightarrow> Inl e
                 | Inr d' \<Rightarrow> squash_loop used len (i + 1) d')))"

definition squash_i686 :: "type_status pydict \<Rightarrow> error + type_status pydict" where
  "squash_i686 d = squash_loop (dict_len d) (dict_len d) 0 d"

text \<open>
  The iterator is stale when more entries lie ahead of it than it has keys to give, or
  as many with a key among them that the body of the loop will delete.
\<close>

definition stale :: "nat \<Rightarrow> nat \<Rightarrow> type_status pydict \<Rightarrow> bool" where
  "stale len pos d \<longleftrightarrow>
     len < length (dict_items (drop pos d)) \<or>
     (len = length (dict_items (drop pos d)) \<and>
      list_ex (\<lambda>kv. startswith (fst kv) ''i686-linux'') (dict_items (drop pos d)))"

section \<open>The sizer (lines 97 to 107)\<close>

text \<open>
  Line 106 divides in double precision: \<^verbatim>\<open>int(math.ceil(a / float(b)))\<close> with integers
  \<open>a\<close> and \<open>b\<close>. A double is a multiple of \<open>2 ^ (e - 52)\<close> with \<open>2 ^ e\<close> the
  largest power of two below or at its magnitude (and of \<open>2 ^ - 1074\<close> below the normal
  range); conversions and the quotient round to the nearest double, a tie to the one with
  an even significand.
\<close>

definition round_half_even :: "real \<Rightarrow> int" where
  "round_half_even y =
     (let f = \<lfloor>y\<rfloor>; d = y - of_int f
      in if d < 1 / 2 then f else if 1 / 2 < d then f + 1 else if even f then f else f + 1)"

text \<open>The binary exponent of the positive quotient \<open>a / b\<close>: \<open>2 ^ e \<le> a / b < 2 ^ (e + 1)\<close>.\<close>

definition exponent :: "nat \<Rightarrow> nat \<Rightarrow> int" where
  "exponent a b =
     (let d = int (floorlog 2 a) - int (floorlog 2 b)
      in if 2 powi d \<le> real a / real b then d else d - 1)"

text \<open>The double nearest to \<open>a / b\<close>, for \<open>b\<close> positive, before the check of its range.\<close>

definition nearest_double :: "nat \<Rightarrow> nat \<Rightarrow> real" where
  "nearest_double a b =
     (if a = 0 then 0
      else let u = 2 powi (max (exponent a b - 52) (- 1074))
           in of_int (round_half_even (real a / real b / u)) * u)"

text \<open>
  The conversion of an integer to a double, as \<^verbatim>\<open>float(b)\<close> and the left operand of
  \<^verbatim>\<open>/\<close> undergo it: the nearest double, itself an integer, or
  \<^verbatim>\<open>OverflowError: int too large to convert to float\<close>.
\<close>

definition float_of_int :: "int \<Rightarrow> error + int" where
  "float_of_int n =
     (let r = nearest_double (nat \<bar>n\<bar>) 1
      in if 2 ^ 1024 \<le> r then Inl OverflowError else Inr (sgn n * \<lfloor>r\<rfloor>))"

text \<open>The quotient of two doubles of integer value, the divisor not zero.\<close>

definition float_div :: "int \<Rightarrow> int \<Rightarrow> real" where
  "float_div x y = of_int (sgn x * sgn y) * nearest_double (nat \<bar>x\<bar>) (nat \<bar>y\<bar>)"

text \<open>
  \<^verbatim>\<open>int(math.ceil(a / float(b)))\<close>: \<^verbatim>\<open>float(b)\<close> is evaluated first, then the division
  converts \<open>a\<close> and raises \<^verbatim>\<open>ZeroDivisionError\<close> for a zero divisor.
\<close>

definition ceil_div :: "int \<Rightarrow> int \<Rightarrow> error + int" where
  "ceil_div a b =
     (case float_of_int b of
        Inl e \<Rightarrow> Inl e
      | Inr y \<Rightarrow>
          (case float_of_int a of
             Inl e \<Rightarrow> Inl e
           | Inr x \<Rightarrow> if y = 0 then Inl ZeroDivisionError else Inr \<lceil>float_div x y\<rceil>))"

text \<open>\<open>wanted\<close> and \<open>allowed\<close> of one machine type, from its policy and its runnable count.\<close>

definition demand :: "type_config \<Rightarrow> int \<Rightarrow> error + (int \<times> int)" where
  "demand tc n =
     (let ignored_runnables = get_or (ignoredRunnables tc) 0;
          runnables_per_machine = get_or (runnablesPerMachine tc) 10
      in case ceil_div (max (n - ignored_runnables) 0) runnables_per_machine of
           Inl e \<Rightarrow> Inl e
         | Inr wanted \<Rightarrow>
             Inr (wanted,
                  min (max wanted (get_or (minMachines tc) 0)) (get_or (maxMachines tc) 1)))"

text \<open>
  The head of the loop body for one type name: \<open>Inr None\<close> is the \<^verbatim>\<open>continue\<close> of a type
  without policy ("cannot provision machines of type ...").
\<close>

definition size_type ::
  "config \<Rightarrow> dispatcher_status \<Rightarrow> string \<Rightarrow> error + (int \<times> int) option" where
  "size_type cfg status type_name =
     (let ts = get_or (map_of (machineTypes status) type_name)
                 \<lparr>runnable = 0, lastActive = None\<rparr>
      in case map_of (systemTypes cfg) type_name of
           None \<Rightarrow> Inr None
         | Some tc \<Rightarrow>
             (case demand tc (runnable ts) of
                Inl e \<Rightarrow> Inl e
              | Inr wa \<Rightarrow> Inr (Some wa)))"

section \<open>The sizing rule in the words of the specification\<close>

text \<open>
  \<^verbatim>\<open>wanted = ceil(max(runnable - ignoredRunnables, 0) / runnablesPerMachine)\<close> and
  \<^verbatim>\<open>allowed = min(max(wanted, minMachines), maxMachines)\<close>, to compare with
  \<open>size_type\<close>.
\<close>

definition spec_wanted :: "int \<Rightarrow> int \<Rightarrow> int \<Rightarrow> int" where
  "spec_wanted n ignored per_machine =
     \<lceil>real_of_int (max (n - ignored) 0) / real_of_int per_machine\<rceil>"

definition spec_allowed :: "int \<Rightarrow> int \<Rightarrow> int \<Rightarrow> int" where
  "spec_allowed wanted lo hi = min (max wanted lo) hi"

section \<open>Selecting the deployments of one machine type (lines 111 to 167)\<close>

text \<open>
  The deployment objects are shared between the lists \<^verbatim>\<open>all_depls\<close>, \<^verbatim>\<open>depls\<close> and
  \<^verbatim>\<open>existing\<close> and the set \<^verbatim>\<open>in_use\<close>, and the loop changes them in place. So the
  lists and the set hold identities, and \<open>store\<close> gives the object of an identity.
  \<open>n_have\<close> is the counter \<^verbatim>\<open>have\<close>.
\<close>

record selection = kept +
  store :: "nat \<Rightarrow> deployment"
  all_depls :: "nat list"
  depls :: "nat list"
  existing :: "nat list"
  n_have :: nat
  created :: nat

definition is_up :: "'a selection_scheme \<Rightarrow> nat \<Rightarrow> bool" where
  "is_up s h \<longleftrightarrow> depl_state (store s h) = UP"

text \<open>
  \<^verbatim>\<open>depl_sort_key\<close>: the key is a one-element list of a truth value, and \<^verbatim>\<open>False\<close>
  sorts first. Python's sort is stable, as \<open>sort_key\<close> is.
\<close>

definition depl_sort_key :: "'a selection_scheme \<Rightarrow> nat \<Rightarrow> bool" where
  "depl_sort_key s h \<longleftrightarrow> depl_state (store s h) \<noteq> UP"

text \<open>\<^verbatim>\<open>sf.create_deployment()\<close> returns a new object: an identity not in use.\<close>

definition fresh :: "nat list \<Rightarrow> nat" where
  "fresh hs = Suc (fold max hs 0)"

text \<open>
  Lines 127 to 137. The name is looked for among \<^verbatim>\<open>depls\<close>, the deployments that carry
  the tag of this controller.
\<close>

definition create_deployment :: "string \<Rightarrow> string \<Rightarrow> selection \<Rightarrow> nat \<times> selection" where
  "create_deployment tg type_name s =
     (let nm = get_new_deployment_name tg (map (store s) (depls s));
          h = fresh (all_depls s);
          depl = \<lparr>uuid = h, name = nm, args = [(''type'', type_name), (''tag'', tg)],
                  machine = None, nix_exprs = [], nix_path = []\<rparr>
      in (h, s\<lparr>store := (store s)(h := depl), all_depls := all_depls s @ [h],
               depls := depls s @ [h], created := created s + 1\<rparr>))"

text \<open>
  Line 146, \<^verbatim>\<open>depl.machines["machine"].check()\<close>: the deployment engine looks at the
  machine and updates it. \<open>chk\<close> is what it finds.
\<close>

definition check :: "(machine_state \<Rightarrow> machine_state) \<Rightarrow> nat \<Rightarrow> selection \<Rightarrow> selection" where
  "check chk h s =
     s\<lparr>store := (store s)(h := (store s h)\<lparr>machine := map_option chk (machine (store s h))\<rparr>)\<rparr>"

text \<open>Lines 160 to 165, with the paths of the policy taken as absolute.\<close>

definition accept :: "type_config \<Rightarrow> nat \<Rightarrow> selection \<Rightarrow> selection" where
  "accept tc h s =
     s\<lparr>store := (store s)(h := (store s h)\<lparr>nix_exprs := [nixopsExpr tc],
                                            nix_path := get_or (nixPath tc) []\<rparr>),
       in_use := insert h (in_use s),
       n_have := n_have s + 1\<rparr>"

text \<open>
  The loop ends: every round that goes on either drops the head of the pool or finds a
  machine of the pool no longer up.
\<close>

definition pool_measure :: "selection \<Rightarrow> nat" where
  "pool_measure s = length (existing s) + length (filter (is_up s) (existing s))"

lemma is_up_accept [simp]: "is_up (accept tc h s) = is_up s"
  by (auto simp: is_up_def accept_def depl_state_def fun_eq_iff)

lemma existing_accept [simp]: "existing (accept tc h s) = existing s"
  by (simp add: accept_def)

lemma created_accept [simp]: "created (accept tc h s) = created s"
  by (simp add: accept_def)

lemma existing_check [simp]: "existing (check chk h s) = existing s"
  by (simp add: check_def)

lemma is_up_check_other: "h' \<noteq> h \<Longrightarrow> is_up (check chk h s) h' = is_up s h'"
  by (simp add: is_up_def check_def)

lemma is_up_existing_update [simp]: "is_up (s\<lparr>existing := xs\<rparr>) = is_up s"
  by (simp add: is_up_def fun_eq_iff)

lemma pool_measure_pop:
  assumes "existing s = h # rest"
  shows "pool_measure (s\<lparr>existing := rest\<rparr>) < pool_measure s"
  using assms by (simp add: pool_measure_def)

lemma filter_up_check_le:
  "length (filter (is_up (check chk h s)) xs) \<le> length (filter (is_up s) xs) \<or>
   is_up (check chk h s) h"
proof (induction xs)
  case Nil
  then show ?case
    by simp
next
  case (Cons x xs)
  then show ?case
    by (cases "x = h") (auto simp: is_up_check_other)
qed

lemma pool_measure_demote:
  assumes "existing s = h # rest" "is_up s h" "\<not> is_up (check chk h s) h"
  shows "pool_measure ((check chk h s)\<lparr>existing :=
            sort_key (depl_sort_key (check chk h s)) (existing (check chk h s))\<rparr>)
           < pool_measure s"
proof -
  let ?s' = "check chk h s"
  from filter_up_check_le [of chk h s rest] assms(3)
  have "length (filter (is_up ?s') rest) \<le> length (filter (is_up s) rest)"
    by blast
  then have "length (filter (is_up ?s') (h # rest)) < length (filter (is_up s) (h # rest))"
    using assms(2,3) by simp
  moreover have "length (filter (is_up ?s') (sort_key (depl_sort_key ?s') (h # rest))) =
      length (filter (is_up ?s') (h # rest))"
    by (simp only: filter_sort length_sort)
  ultimately show ?thesis
    using assms(1) by (simp add: pool_measure_def)
qed

lemma pool_measure_check_pop:
  assumes "existing s = h # rest" "is_up s h" "is_up (check chk h s) h"
  shows "pool_measure ((check chk h s)\<lparr>existing := rest\<rparr>) < pool_measure s"
proof -
  have "is_up (check chk h s) h' = is_up s h'" for h'
    using assms(2,3) by (cases "h' = h") (auto simp: is_up_check_other)
  then have "is_up (check chk h s) = is_up s"
    by (simp add: fun_eq_iff)
  then show ?thesis
    using assms(1) by (simp add: pool_measure_def)
qed

text \<open>
  The loop \<^verbatim>\<open>while have < allowed\<close>. Its three \<^verbatim>\<open>continue\<close> statements and its fall
  out of the condition are the recursive calls; \<^verbatim>\<open>if created >= 1: break\<close> returns.
\<close>

function select_loop ::
  "string \<Rightarrow> string \<Rightarrow> type_config \<Rightarrow> (machine_state \<Rightarrow> machine_state) \<Rightarrow> int \<Rightarrow>
   selection \<Rightarrow> selection" where
  "select_loop tg type_name tc chk allowed s =
     (if int (n_have s) < allowed then
        (case existing s of
           [] \<Rightarrow>
             (case create_deployment tg type_name s of
                (h, s1) \<Rightarrow>
                  let s2 = accept tc h s1
                  in if created s2 \<ge> 1 then s2
                     else select_loop tg type_name tc chk allowed s2)
         | h # rest \<Rightarrow>
             if is_up s h then
               let s1 = check chk h s
               in if \<not> is_up s1 h
                  then select_loop tg type_name tc chk allowed
                         (s1\<lparr>existing := sort_key (depl_sort_key s1) (existing s1)\<rparr>)
                  else
                    let s2 = accept tc h (s1\<lparr>existing := rest\<rparr>)
                    in if created s2 \<ge> 1 then s2
                       else select_loop tg type_name tc chk allowed s2
             else if depl_state (store s h) = MISSING
             then select_loop tg type_name tc chk allowed (s\<lparr>existing := rest\<rparr>)
             else
               let s2 = accept tc h (s\<lparr>existing := rest\<rparr>)
               in if created s2 \<ge> 1 then s2
                  else select_loop tg type_name tc chk allowed s2)
      else s)"
  by pat_completeness auto
termination
  apply (relation "measure (\<lambda>(tg, type_name, tc, chk, allowed, s). pool_measure s)")
       apply simp
      apply (simp add: create_deployment_def Let_def)
  subgoal for tg type_name tc chk allowed s h rest s1
    using pool_measure_demote [of s h rest chk] by simp
  subgoal for tg type_name tc chk allowed s h rest s1 s2
    using pool_measure_check_pop [of s h rest chk] by (simp add: pool_measure_def)
  subgoal for tg type_name tc chk allowed s h rest
    using pool_measure_pop [of s h rest] by simp
  subgoal for tg type_name tc chk allowed s h rest s2
    using pool_measure_pop [of s h rest] by (simp add: pool_measure_def)
  done

declare select_loop.simps [simp del]

text \<open>
  The body of the loop over the machine types for one type name: the sizer, the pool of
  the type with the machines that are up first, and the selection loop.
\<close>

definition provision_type ::
  "(machine_state \<Rightarrow> machine_state) \<Rightarrow> config \<Rightarrow> dispatcher_status \<Rightarrow> string \<Rightarrow>
   selection \<Rightarrow> error + selection" where
  "provision_type chk cfg status type_name s =
     (case size_type cfg status type_name of
        Inl e \<Rightarrow> Inl e
      | Inr None \<Rightarrow> Inr s
      | Inr (Some (wanted, allowed)) \<Rightarrow>
          (case map_of (systemTypes cfg) type_name of
             None \<Rightarrow> Inr s
           | Some tc \<Rightarrow>
               Inr (select_loop (tag cfg) type_name tc chk allowed
                      (s\<lparr>existing :=
                           sort_key (depl_sort_key s)
                             (filter (\<lambda>h. get_depl_arg (store s h) ''type'' [] = type_name)
                                (depls s)),
                         n_have := 0, created := 0\<rparr>))))"

text \<open>
  Line 89: the machine types of the status and of the policy. The script holds them in
  a set; \<open>system_types\<close> is one enumeration of it.
\<close>

definition system_types :: "dispatcher_status \<Rightarrow> config \<Rightarrow> string list" where
  "system_types status cfg = remdups (map fst (machineTypes status) @ map fst (systemTypes cfg))"

text \<open>The loop over the machine types, in the order in which the set is enumerated.\<close>

fun provision ::
  "(machine_state \<Rightarrow> machine_state) \<Rightarrow> config \<Rightarrow> dispatcher_status \<Rightarrow> string list \<Rightarrow>
   selection \<Rightarrow> error + selection" where
  "provision chk cfg status [] s = Inr s"
| "provision chk cfg status (type_name # type_names) s =
     (case provision_type chk cfg status type_name s of
        Inl e \<Rightarrow> Inl e
      | Inr s' \<Rightarrow> provision chk cfg status type_names s')"

text \<open>
  Lines 62 to 64 and 93: the state of the script before the loop over the machine types,
  with the deployments of the state file filtered by the tag.
\<close>

definition start :: "config \<Rightarrow> (nat \<Rightarrow> deployment) \<Rightarrow> nat list \<Rightarrow> selection" where
  "start cfg objects hs =
     \<lparr>in_use = {}, store = objects, all_depls = hs,
      depls = filter (\<lambda>h. get_depl_arg (objects h) ''tag'' [] = tag cfg) hs,
      existing = [], n_have = 0, created = 0\<rparr>"

text \<open>The machine type that a created deployment was given (\<^verbatim>\<open>set_argstr("type", ...)\<close>).\<close>

definition created_type :: "selection \<Rightarrow> nat \<Rightarrow> string option" where
  "created_type s h = map_of (args (store s h)) ''type''"

text \<open>
  How a state \<open>s\<close> has grown out of \<open>s0\<close> by creations for the type \<open>t\<close>: new
  identities at the end of both lists, each with the arguments of its creation, and
  the arguments of the older deployments as they were.
\<close>

definition grown :: "string \<Rightarrow> string \<Rightarrow> selection \<Rightarrow> selection \<Rightarrow> bool" where
  "grown tg t s0 s \<longleftrightarrow>
     (\<exists>new. all_depls s = all_depls s0 @ new \<and> depls s = depls s0 @ new \<and> distinct new \<and>
        set new \<inter> set (all_depls s0) = {} \<and>
        (\<forall>h\<in>set new. args (store s h) = [(''type'', t), (''tag'', tg)]) \<and>
        (\<forall>h\<in>set (all_depls s0). args (store s h) = args (store s0 h)))"

section \<open>Retention of the deployments that were not selected (lines 170 to 220)\<close>

record run_sets = kept +
  expired :: "nat set"
  unusable :: "nat set"

text \<open>Lines 212 and 213: the time the type was last active, imputed when unknown.\<close>

definition last_active_of :: "dispatcher_status \<Rightarrow> int \<Rightarrow> string \<Rightarrow> int" where
  "last_active_of status now type_name =
     (let last_active =
            (case map_of (machineTypes status) type_name of
               None \<Rightarrow> 0
             | Some ts \<Rightarrow> get_or (lastActive ts) 0)
      in if last_active = 0 then now - uptime status + 1800 else last_active)"

text \<open>
  Line 198: the dispatcher reports jobs on the machine. A missing entry is the empty
  dict, which is false.
\<close>

definition has_current_jobs :: "dispatcher_status \<Rightarrow> machine_state \<Rightarrow> bool" where
  "has_current_jobs status m =
     (case map_of (machines status) (''root@'' @ ssh_name m) of
        None \<Rightarrow> False
      | Some ms \<Rightarrow> get_or (currentJobs ms) 0 \<noteq> 0)"

text \<open>
  The body of the loop over \<^verbatim>\<open>depls\<close> for one deployment. \<^verbatim>\<open>m.get_ssh_name()\<close> on a
  deployment without machine would raise \<^verbatim>\<open>AttributeError\<close>.
\<close>

definition retain ::
  "config \<Rightarrow> dispatcher_status \<Rightarrow> int \<Rightarrow> deployment \<Rightarrow> run_sets \<Rightarrow> error + run_sets" where
  "retain cfg status now depl s =
     (if uuid depl \<in> in_use s then Inr s
      else if depl_state depl \<notin> {UP, STARTING}
      then Inr (s\<lparr>expired := insert (uuid depl) (expired s)\<rparr>)
      else
        let type_name = get_depl_arg depl ''type'' [];
            grace_period =
              (case map_of (systemTypes cfg) type_name of
                 None \<Rightarrow> 0
               | Some tc \<Rightarrow> get_or (gracePeriod tc) 0);
            time_left = get_depl_time_left now depl
        in if time_left \<ge> 30 * 60
           then Inr (s\<lparr>in_use := insert (uuid depl) (in_use s)\<rparr>)
           else
             (case machine depl of
                None \<Rightarrow> Inl AttributeError
              | Some m \<Rightarrow>
                  if has_current_jobs status m
                  then Inr (s\<lparr>in_use := insert (uuid depl) (in_use s),
                              unusable := (if grace_period > 0
                                           then insert (uuid depl) (unusable s)
                                           else unusable s)\<rparr>)
                  else if now - last_active_of status now type_name < grace_period
                  then Inr (s\<lparr>in_use := insert (uuid depl) (in_use s)\<rparr>)
                  else Inr (s\<lparr>expired := insert (uuid depl) (expired s)\<rparr>)))"

fun retention ::
  "config \<Rightarrow> dispatcher_status \<Rightarrow> int \<Rightarrow> deployment list \<Rightarrow> run_sets \<Rightarrow> error + run_sets" where
  "retention cfg status now [] s = Inr s"
| "retention cfg status now (depl # rest) s =
     (case retain cfg status now depl s of
        Inl e \<Rightarrow> Inl e
      | Inr s' \<Rightarrow> retention cfg status now rest s')"

text \<open>
  The condition under which the loop body gets as far as line 196, where the machine is
  fetched and \<^verbatim>\<open>m.get_ssh_name()\<close> is called: none of the three \<^verbatim>\<open>continue\<close>
  statements before it was taken.
\<close>

definition lookup_reached :: "int \<Rightarrow> deployment \<Rightarrow> run_sets \<Rightarrow> bool" where
  "lookup_reached now depl s \<longleftrightarrow>
     uuid depl \<notin> in_use s \<and> depl_state depl \<in> {UP, STARTING} \<and>
     \<not> get_depl_time_left now depl \<ge> 30 * 60"

section \<open>The roster (lines 238 to 268)\<close>

text \<open>
  \<^verbatim>\<open>s.split(sep)\<close> with a separator of one character, \<^verbatim>\<open>sep.join(xs)\<close> for strings,
  \<^verbatim>\<open>str(i)\<close> for an integer and \<^verbatim>\<open>base64.b64encode\<close>.
\<close>

fun split_on :: "char \<Rightarrow> string \<Rightarrow> string list" where
  "split_on sep [] = [[]]"
| "split_on sep (c # cs) =
     (if c = sep then [] # split_on sep cs
      else (case split_on sep cs of
              [] \<Rightarrow> [[c]]
            | w # ws \<Rightarrow> (c # w) # ws))"

fun join :: "string \<Rightarrow> string list \<Rightarrow> string" where
  "join sep [] = []"
| "join sep [x] = x"
| "join sep (x # y # ys) = x @ sep @ join sep (y # ys)"

definition str_int :: "int \<Rightarrow> string" where
  "str_int i = (if i < 0 then ''-'' @ str_nat (nat (- i)) else str_nat (nat i))"

definition b64_char :: "nat \<Rightarrow> char" where
  "b64_char n =
     ''ABCDEFGHIJKLMNOPQRSTUVWXYZabcdefghijklmnopqrstuvwxyz0123456789+/'' ! (n mod 64)"

fun b64encode :: "string \<Rightarrow> string" where
  "b64encode [] = []"
| "b64encode [a] =
     (let n = of_char a * 65536
      in [b64_char (n div 262144), b64_char (n div 4096), CHR ''='', CHR ''=''])"
| "b64encode [a, b] =
     (let n = of_char a * 65536 + of_char b * 256
      in [b64_char (n div 262144), b64_char (n div 4096), b64_char (n div 64), CHR ''=''])"
| "b64encode (a # b # c # rest) =
     (let n = of_char a * 65536 + of_char b * 256 + of_char c
      in [b64_char (n div 262144), b64_char (n div 4096), b64_char (n div 64), b64_char n]
         @ b64encode rest)"

text \<open>
  \<^verbatim>\<open>base64.b64encode\<close> returns a \<^verbatim>\<open>bytes\<close> object, so the list \<^verbatim>\<open>columns\<close> may
  hold one next to its strings. \<^verbatim>\<open>" ".join(columns)\<close> raises \<^verbatim>\<open>TypeError\<close> on it.
  The host key is taken to be a \<^verbatim>\<open>bytes\<close> object; on a \<^verbatim>\<open>str\<close> the call of
  \<^verbatim>\<open>b64encode\<close> itself raises \<^verbatim>\<open>TypeError\<close>, before the assertion on the columns.
\<close>

datatype column = Str string | Bytes string

fun str_join :: "string \<Rightarrow> column list \<Rightarrow> error + string" where
  "str_join sep [] = Inr []"
| "str_join sep (Bytes b # cs) = Inl TypeError"
| "str_join sep [Str x] = Inr x"
| "str_join sep (Str x # c # cs) =
     (case str_join sep (c # cs) of Inl e \<Rightarrow> Inl e | Inr r \<Rightarrow> Inr (x @ sep @ r))"

text \<open>
  The lists of systems and of features of a type name \<^verbatim>\<open>systems:features\<close>, split at
  its first colon, with \<^verbatim>\<open>i686-linux\<close> appended to the systems that have
  \<^verbatim>\<open>x86_64-linux\<close> without it.
\<close>

definition systems_of :: "string \<Rightarrow> string list" where
  "systems_of type_name =
     (let systems_list = split_on CHR '','' (takeWhile (\<lambda>c. c \<noteq> CHR '':'') type_name)
      in if ''x86_64-linux'' \<in> set systems_list \<and> ''i686-linux'' \<notin> set systems_list
         then systems_list @ [''i686-linux''] else systems_list)"

definition features_of :: "string \<Rightarrow> string list" where
  "features_of type_name =
     (let features = drop 1 (dropWhile (\<lambda>c. c \<noteq> CHR '':'') type_name)
      in if features \<noteq> [] then split_on CHR '','' features else [])"


text \<open>
  The body of the loop over \<^verbatim>\<open>deployed\<close> for one deployment that is not unusable:
  the two assertions, the lookup of the policy and the line.
\<close>

definition roster_columns :: "machine_state \<Rightarrow> type_config \<Rightarrow> string \<Rightarrow> column list" where
  "roster_columns m type_config type_name =
     (let type_name = (if CHR '':'' \<notin> set type_name then type_name @ '':'' else type_name);
          systems_list = systems_of type_name;
          features_list = features_of type_name
      in [Str (''root@'' @ ssh_name m),
          Str (join '','' systems_list),
          Str (get_or (sshKey type_config) ''-''),
          Str (str_int (get_or (maxJobs type_config) 1)),
          Str (str_int (get_or (speedFactor type_config) 1)),
          Str (if features_list \<noteq> [] then join '','' features_list else ''-''),
          Str (if features_list \<noteq> [] then join '','' features_list else ''-''),
          (case public_host_key m of
             None \<Rightarrow> Str ''-''
           | Some key \<Rightarrow> if key \<noteq> [] then Bytes (b64encode key) else Str ''-'')])"

definition machine_line :: "config \<Rightarrow> deployment \<Rightarrow> error + string" where
  "machine_line cfg depl =
     (case machine depl of
        None \<Rightarrow> Inl AssertionError
      | Some m \<Rightarrow>
          let type_name = get_depl_arg depl ''type'' []
          in (case map_of (systemTypes cfg) type_name of
                None \<Rightarrow> Inl KeyError
              | Some type_config \<Rightarrow>
                  let columns = roster_columns m type_config type_name
                  in if \<not> list_all (\<lambda>c. c \<noteq> Str []) columns then Inl AssertionError
                     else (case str_join '' '' columns of
                             Inl e \<Rightarrow> Inl e
                           | Inr r \<Rightarrow> Inr (r @ [CHR 0x0A]))))"


section \<open>The roster in the words of the specification\<close>
















section \<open>Retirement of the expired deployments (lines 281 to 305)\<close>

text \<open>The calls to the deployment engine, each with the identity of its deployment.\<close>

datatype engine_call = StopMachines nat | DestroyResources nat | Delete nat

fun call_target :: "engine_call \<Rightarrow> nat" where
  "call_target (StopMachines u) = u"
| "call_target (DestroyResources u) = u"
| "call_target (Delete u) = u"

definition retire :: "config \<Rightarrow> int \<Rightarrow> deployment \<Rightarrow> engine_call list" where
  "retire cfg now depl =
     (let type_name = get_depl_arg depl ''type'' [];
          type_config = map_of (systemTypes cfg) type_name
      in if depl_state depl \<in> {UP, STARTING} \<and> get_depl_time_left now depl \<ge> 10 * 60
         then []
         else
           let stop_on_idle =
                 (case type_config of None \<Rightarrow> False | Some tc \<Rightarrow> get_or (stopOnIdle tc) False)
           in if stop_on_idle
              then (if depl_state depl \<noteq> STOPPED then [StopMachines (uuid depl)] else [])
              else [DestroyResources (uuid depl), Delete (uuid depl)])"

definition retirement :: "config \<Rightarrow> int \<Rightarrow> deployment list \<Rightarrow> engine_call list" where
  "retirement cfg now expired_depls = concat (map (retire cfg now) expired_depls)"

section \<open>Concrete inputs\<close>

text \<open>
  A policy with one machine type, a worker that is up, and the variations of both that
  the examples below run the script on.
\<close>

definition policy_big :: type_config where
  "policy_big =
     \<lparr>nixopsExpr = ''/etc/big.nix'', nixPath = None, runnablesPerMachine = Some 10,
      ignoredRunnables = Some 0, minMachines = Some 2, maxMachines = Some 3,
      gracePeriod = Some 0, stopOnIdle = None, sshKey = None, maxJobs = None,
      speedFactor = None\<rparr>"

definition cfg_big :: config where
  "cfg_big =
     \<lparr>tag = ''hydra-provisioned'', systemTypes = [(''x86_64-linux:big'', policy_big)]\<rparr>"

definition cfg_warm :: config where
  "cfg_warm =
     \<lparr>tag = ''hydra-provisioned'',
      systemTypes = [(''x86_64-linux:big'', policy_big\<lparr>gracePeriod := Some 600\<rparr>)]\<rparr>"

text \<open>The same configuration with another policy for its one type.\<close>

definition cfg_of :: "type_config \<Rightarrow> config" where
  "cfg_of tc = \<lparr>tag = ''hydra-provisioned'', systemTypes = [(''x86_64-linux:big'', tc)]\<rparr>"

definition status_idle :: dispatcher_status where
  "status_idle = \<lparr>machineTypes = [], machines = [], uptime = 0\<rparr>"

text \<open>A status with \<open>n\<close> runnable jobs of the one type.\<close>

definition status_of :: "int \<Rightarrow> dispatcher_status" where
  "status_of n =
     \<lparr>machineTypes = [(''x86_64-linux:big'', \<lparr>runnable = n, lastActive = None\<rparr>)],
      machines = [], uptime = 500\<rparr>"

definition status_recent :: dispatcher_status where
  "status_recent =
     \<lparr>machineTypes = [(''x86_64-linux:big'', \<lparr>runnable = 0, lastActive = Some 880\<rparr>)],
      machines = [], uptime = 500\<rparr>"

definition status_busy :: dispatcher_status where
  "status_busy =
     \<lparr>machineTypes = [(''x86_64-linux:big'', \<lparr>runnable = 0, lastActive = Some 880\<rparr>)],
      machines = [(''root@worker7'', \<lparr>currentJobs = Some 2\<rparr>)], uptime = 500\<rparr>"

definition machine7 :: machine_state where
  "machine7 =
     \<lparr>state = UP, ssh_name = ''worker7'', public_host_key = None, next_charge_time = None\<rparr>"

definition worker7 :: deployment where
  "worker7 =
     \<lparr>uuid = 7, name = ''hydra-provisioned-0'',
      args = [(''tag'', ''hydra-provisioned''), (''type'', ''x86_64-linux:big'')],
      machine = Some machine7, nix_exprs = [], nix_path = []\<rparr>"

text \<open>A stopped worker whose next charge is an hour after the clock reading 1000.\<close>

definition worker8 :: deployment where
  "worker8 =
     worker7\<lparr>uuid := 8,
             machine := Some (machine7\<lparr>state := STOPPED, next_charge_time := Some 4600\<rparr>)\<rparr>"

text \<open>A worker whose machine exists and is in state \<open>MISSING\<close>.\<close>

definition worker9 :: deployment where
  "worker9 = worker7\<lparr>uuid := 9, machine := Some (machine7\<lparr>state := MISSING\<rparr>)\<rparr>"

text \<open>A worker that is up, with 700 seconds of paid time left at the clock reading 1000.\<close>

definition worker10 :: deployment where
  "worker10 =
     worker7\<lparr>uuid := 10, machine := Some (machine7\<lparr>next_charge_time := Some 1700\<rparr>)\<rparr>"





definition no_sets :: run_sets where
  "no_sets = \<lparr>in_use = {}, expired = {}, unusable = {}\<rparr>"

text \<open>A state file without deployments, and one with a deployment of another tag.\<close>

definition no_objects :: "nat \<Rightarrow> deployment" where
  "no_objects h =
     \<lparr>uuid = h, name = [], args = [], machine = None, nix_exprs = [], nix_path = []\<rparr>"

definition foreign :: deployment where
  "foreign =
     \<lparr>uuid = 1, name = ''hydra-provisioned-0'', args = [(''tag'', ''staging'')],
      machine = None, nix_exprs = [], nix_path = []\<rparr>"

definition foreign_start :: selection where
  "foreign_start = start cfg_big (no_objects(1 := foreign)) [1]"

text \<open>The cold start of the specification: 25 runnable jobs and no deployment yet.\<close>

definition status_cold :: dispatcher_status where
  "status_cold =
     \<lparr>machineTypes = [(''x86_64-linux:big'', \<lparr>runnable = 25, lastActive = None\<rparr>)],
      machines = [], uptime = 500\<rparr>"

definition cold_start :: selection where
  "cold_start = start cfg_big no_objects []"

definition cold_result :: selection where
  "cold_result =
     \<lparr>in_use = {1},
      store = no_objects(1 :=
        \<lparr>uuid = 1, name = ''hydra-provisioned-0'',
         args = [(''type'', ''x86_64-linux:big''), (''tag'', ''hydra-provisioned'')],
         machine = None, nix_exprs = [''/etc/big.nix''], nix_path = []\<rparr>),
      all_depls = [1], depls = [1], existing = [], n_have = 1, created = 1\<rparr>"

text \<open>
  Scenario 2 of the specification: 7 runnable jobs for \<^verbatim>\<open>i686-linux:\<close> and 3 for
  \<^verbatim>\<open>x86_64-linux:\<close>; and a status with 32-bit jobs only.
\<close>

definition scenario2 :: "type_status pydict" where
  "scenario2 = dict_of [(''i686-linux:'', \<lparr>runnable = 7, lastActive = None\<rparr>),
                        (''x86_64-linux:'', \<lparr>runnable = 3, lastActive = None\<rparr>)]"

definition only_i686 :: "type_status pydict" where
  "only_i686 = dict_of [(''i686-linux:'', \<lparr>runnable = 7, lastActive = None\<rparr>)]"


lemmas example_defs =
  policy_big_def cfg_big_def cfg_warm_def status_idle_def status_recent_def status_busy_def
  machine7_def worker7_def worker8_def worker9_def worker10_def no_sets_def

section \<open>Properties of the status fetch\<close>

lemma get_status_nonzero_exit: "get_status NonZeroExit = Inr down_status"
  by (simp add: get_status_def load_status_def)

lemma get_status_falsy: "\<not> truthy j \<Longrightarrow> get_status (Parsed j) = Inr down_status"
  by (simp add: get_status_def load_status_def)

text \<open>
  C2. The claim is that every outcome of the status command, also output that is not
  JSON and a document without the expected keys, ends in the synthesised "down" status.
  The script only does so for a non-zero exit, an empty document and a document whose
  status is "down". Output that is not JSON raises \<^verbatim>\<open>ValueError\<close> out of the
  \<^verbatim>\<open>try\<close> block, and a non-empty object without the key \<^verbatim>\<open>status\<close> raises
  \<^verbatim>\<open>KeyError\<close> at line 74: both end the run.
\<close>

theorem get_status_aborts:
  "get_status Unparseable = Inl ValueError \<and>
   get_status (Parsed (JObj [(''uptime'', JInt 5)])) = Inl KeyError"
  by (simp add: get_status_def load_status_def)

section \<open>Properties of the sizer\<close>

subsection \<open>The double quotient\<close>

lemma floorlog_eq:
  assumes "2 ^ n \<le> x" "x < 2 ^ Suc n"
  shows "floorlog 2 x = Suc n"
proof -
  have "Suc n \<le> floorlog 2 x"
    using assms(1) by (intro floorlog_ge_SucI) auto
  moreover have "floorlog 2 x \<le> Suc n"
    using assms(2) by (intro floorlog_leI) auto
  ultimately show ?thesis by simp
qed

lemma round_half_even_le: "y \<le> of_int N \<Longrightarrow> round_half_even y \<le> N"
  unfolding round_half_even_def Let_def by (auto split: if_splits) linarith+

lemma round_half_even_ge: "of_int N \<le> y \<Longrightarrow> N \<le> round_half_even y"
  unfolding round_half_even_def Let_def by (auto split: if_splits) linarith+

lemma round_half_even_above: "of_int M + 1 / 2 < y \<Longrightarrow> M + 1 \<le> round_half_even y"
  unfolding round_half_even_def Let_def by (auto split: if_splits) linarith+

lemma round_half_even_below: "y < of_int N - 1 / 2 \<Longrightarrow> round_half_even y \<le> N - 1"
  unfolding round_half_even_def Let_def by (auto split: if_splits) linarith+


lemma exponent_bounds:
  assumes "0 < a" "0 < b"
  shows "2 powi exponent a b \<le> real a / real b"
    and "real a / real b < 2 powi (exponent a b + 1)"
proof -
  let ?la = "floorlog 2 a" and ?lb = "floorlog 2 b"
  let ?q = "real a / real b"
  let ?d = "int ?la - int ?lb"
  from floorlog_bounds [of a 2] assms(1) have a: "2 ^ (?la - 1) \<le> a" "a < 2 ^ ?la"
    by auto
  from floorlog_bounds [of b 2] assms(2) have b: "2 ^ (?lb - 1) \<le> b" "b < 2 ^ ?lb"
    by auto
  have pos: "0 < ?la" "0 < ?lb"
    using assms floorlog_eq_zero_iff [of 2 a] floorlog_eq_zero_iff [of 2 b] by auto
  have ra: "real a < 2 ^ ?la" "2 ^ (?la - 1) \<le> real a"
    using a by (metis of_nat_less_iff of_nat_numeral of_nat_power,
                metis of_nat_le_iff of_nat_numeral of_nat_power)
  have rb: "real b < 2 ^ ?lb" "2 ^ (?lb - 1) \<le> real b"
    using b by (metis of_nat_less_iff of_nat_numeral of_nat_power,
                metis of_nat_le_iff of_nat_numeral of_nat_power)
  have "?q < 2 ^ ?la / 2 ^ (?lb - 1)"
    using ra(1) rb(2) assms by (intro frac_less) auto
  also have "\<dots> = 2 powi (int ?la - int (?lb - 1))"
    by (simp add: power_int_diff)
  also have "int ?la - int (?lb - 1) = ?d + 1"
    using pos by simp
  finally have upper: "?q < 2 powi (?d + 1)" .
  have "2 ^ (?la - 1) / 2 ^ ?lb < ?q"
    using ra(2) rb(1) assms by (intro frac_less2) auto
  moreover have "2 ^ (?la - 1) / 2 ^ ?lb = (2::real) powi (int (?la - 1) - int ?lb)"
    by (simp add: power_int_diff)
  moreover have "int (?la - 1) - int ?lb = ?d - 1"
    using pos by simp
  ultimately have lower: "2 powi (?d - 1) < ?q"
    by (simp add: algebra_simps)
  show "2 powi exponent a b \<le> ?q"
    using lower by (auto simp: exponent_def Let_def)
  show "?q < 2 powi (exponent a b + 1)"
    using upper by (auto simp: exponent_def Let_def)
qed


lemma nearest_double_scaled:
  assumes "0 < a" "a < 2 ^ 53" "0 < b" "b < 2 ^ 53"
  obtains n where "nearest_double a b = of_int (round_half_even (real a / real b * 2 ^ n)) / 2 ^ n"
    and "real b < 2 ^ Suc n"
proof -
  let ?q = "real a / real b"
  let ?e = "exponent a b"
  note eb = exponent_bounds [OF assms(1,3)]
  have "1 \<le> real b"
    using assms(3) by simp
  then have "?q \<le> real a / 1"
    by (intro divide_left_mono) auto
  then have q_le: "?q \<le> real a"
    by simp
  have "real a < 2 ^ 53"
    using assms(2) by (metis of_nat_less_iff of_nat_numeral of_nat_power)
  with eb(1) q_le have "2 powi ?e < (2::real) powi 53"
    by simp
  then have e_hi: "?e < 53"
    using power_int_increasing [of 53 ?e "2::real"] by (cases "?e < 53") auto
  have rb: "real b < 2 ^ 53"
    using assms(4) by (metis of_nat_less_iff of_nat_numeral of_nat_power)
  have "1 \<le> real a"
    using assms(1) by simp
  then have "1 / real b \<le> ?q"
    using assms(3) by (simp add: divide_right_mono)
  moreover have "1 / 2 ^ 53 < 1 / real b"
    using rb assms(3) by (simp add: field_simps)
  ultimately have "(2::real) powi (- 53) < 2 powi (?e + 1)"
    using eb(2) by (simp add: power_int_minus field_simps)
  then have e_lo: "- 54 < ?e"
    using power_int_increasing [of "?e + 1" "- 53" "2::real"] by (cases "- 54 < ?e") auto
  define n where "n = nat (52 - ?e)"
  have e: "?e - 52 = - int n"
    using e_hi by (simp add: n_def)
  have "max (?e - 52) (- 1074) = - int n"
    using e_lo e by simp
  then have u: "(2::real) powi (max (?e - 52) (- 1074)) = 1 / 2 ^ n"
    by (simp only: power_int_minus power_int_of_nat inverse_eq_divide)
  have dbl: "nearest_double a b = of_int (round_half_even (?q * 2 ^ n)) / 2 ^ n"
    using assms(1) by (simp add: nearest_double_def Let_def u)
  have "?e = 52 - int n"
    using e by simp
  moreover have "(2::real) powi (52 - int n) = 2 powi 52 / 2 powi int n"
    by (rule power_int_diff) simp
  ultimately have "(2::real) powi ?e = 2 ^ 52 / 2 ^ n"
    by simp
  with eb(1) have "2 ^ 52 / 2 ^ n * real b \<le> real a"
    using assms(3) by (simp add: field_simps)
  with \<open>real a < 2 ^ 53\<close> have "2 ^ 52 / 2 ^ n * real b < (2::real) ^ 53"
    by linarith
  then have "real b < 2 ^ Suc n"
    by (simp add: field_simps)
  with dbl show ?thesis
    by (rule that)
qed


lemma quotient_above:
  assumes "0 < b" "real_of_int m < real a / real b"
  shows "real_of_int m + 1 / real b \<le> real a / real b"
proof -
  from assms have "real_of_int (m * int b) < real_of_int (int a)"
    by (simp add: field_simps)
  then have "m * int b < int a"
    by (simp only: of_int_less_iff)
  then have "m * int b + 1 \<le> int a"
    by simp
  then have "real_of_int (m * int b + 1) \<le> real_of_int (int a)"
    by (simp only: of_int_le_iff)
  then have "(real_of_int m * real b + 1) / real b \<le> real a / real b"
    by (intro divide_right_mono) auto
  then show ?thesis
    using assms(1) by (simp add: add_divide_distrib)
qed

lemma quotient_below:
  assumes "0 < b" "real a / real b < real_of_int m"
  shows "real a / real b \<le> real_of_int m - 1 / real b"
proof -
  from assms have "real_of_int (int a) < real_of_int (m * int b)"
    by (simp add: field_simps)
  then have "int a < m * int b"
    by (simp only: of_int_less_iff)
  then have "int a + 1 \<le> m * int b"
    by simp
  then have "real_of_int (int a + 1) \<le> real_of_int (m * int b)"
    by (simp only: of_int_le_iff)
  then show ?thesis
    using assms(1) by (simp add: field_simps)
qed

lemma nearest_double_ceiling:
  assumes "0 < a" "a < 2 ^ 53" "0 < b" "b < 2 ^ 53"
  shows "\<lceil>nearest_double a b\<rceil> = \<lceil>real a / real b\<rceil>"
proof -
  let ?q = "real a / real b"
  let ?c = "\<lceil>?q\<rceil>"
  from nearest_double_scaled [OF assms] obtain n
    where nd: "nearest_double a b = of_int (round_half_even (?q * 2 ^ n)) / 2 ^ n"
      and bn: "real b < 2 ^ Suc n"
    by blast
  have half: "1 / 2 < 2 ^ n / real b"
    using bn assms(3) by (simp add: field_simps)
  have "?q * 2 ^ n \<le> of_int ?c * 2 ^ n"
    by (intro mult_right_mono) auto
  then have "?q * 2 ^ n \<le> of_int (?c * 2 ^ n)"
    by simp
  then have "round_half_even (?q * 2 ^ n) \<le> ?c * 2 ^ n"
    by (rule round_half_even_le)
  then have "real_of_int (round_half_even (?q * 2 ^ n)) \<le> real_of_int (?c * 2 ^ n)"
    by (simp only: of_int_le_iff)
  then have upper: "nearest_double a b \<le> of_int ?c"
    by (simp add: nd field_simps)
  have "real_of_int (?c - 1) < ?q"
    by linarith
  from quotient_above [OF assms(3) this]
  have "(real_of_int (?c - 1) + 1 / real b) * 2 ^ n \<le> ?q * 2 ^ n"
    by (rule mult_right_mono) simp
  with half have "of_int ((?c - 1) * 2 ^ n) + 1 / 2 < ?q * 2 ^ n"
    by (simp add: algebra_simps)
  then have "(?c - 1) * 2 ^ n + 1 \<le> round_half_even (?q * 2 ^ n)"
    by (rule round_half_even_above)
  then have "real_of_int ((?c - 1) * 2 ^ n + 1) \<le> real_of_int (round_half_even (?q * 2 ^ n))"
    by (simp only: of_int_le_iff)
  then have "real_of_int ((?c - 1) * 2 ^ n + 1) / 2 ^ n \<le> nearest_double a b"
    unfolding nd by (rule divide_right_mono) simp
  moreover have "real_of_int ((?c - 1) * 2 ^ n + 1) / 2 ^ n = real_of_int (?c - 1) + 1 / 2 ^ n"
    by (simp add: add_divide_distrib)
  moreover have "(0::real) < 1 / 2 ^ n"
    by simp
  ultimately have lower: "of_int ?c - 1 < nearest_double a b"
    by (simp only: of_int_diff of_int_1)
  from lower upper show ?thesis
    by (rule ceiling_unique)
qed

lemma nearest_double_floor:
  assumes "0 < a" "a < 2 ^ 53" "0 < b" "b < 2 ^ 53"
  shows "\<lfloor>nearest_double a b\<rfloor> = \<lfloor>real a / real b\<rfloor>"
proof -
  let ?q = "real a / real b"
  let ?f = "\<lfloor>?q\<rfloor>"
  from nearest_double_scaled [OF assms] obtain n
    where nd: "nearest_double a b = of_int (round_half_even (?q * 2 ^ n)) / 2 ^ n"
      and bn: "real b < 2 ^ Suc n"
    by blast
  have half: "1 / 2 < 2 ^ n / real b"
    using bn assms(3) by (simp add: field_simps)
  have "of_int ?f * 2 ^ n \<le> ?q * 2 ^ n"
    by (intro mult_right_mono) auto
  then have "of_int (?f * 2 ^ n) \<le> ?q * 2 ^ n"
    by simp
  then have "?f * 2 ^ n \<le> round_half_even (?q * 2 ^ n)"
    by (rule round_half_even_ge)
  then have "real_of_int (?f * 2 ^ n) \<le> real_of_int (round_half_even (?q * 2 ^ n))"
    by (simp only: of_int_le_iff)
  then have lower: "of_int ?f \<le> nearest_double a b"
    by (simp add: nd field_simps)
  have "?q < real_of_int (?f + 1)"
    by linarith
  from quotient_below [OF assms(3) this]
  have "?q * 2 ^ n \<le> (real_of_int (?f + 1) - 1 / real b) * 2 ^ n"
    by (rule mult_right_mono) simp
  with half have "?q * 2 ^ n < of_int ((?f + 1) * 2 ^ n) - 1 / 2"
    by (simp add: algebra_simps)
  then have "round_half_even (?q * 2 ^ n) \<le> (?f + 1) * 2 ^ n - 1"
    by (rule round_half_even_below)
  then have "real_of_int (round_half_even (?q * 2 ^ n)) \<le> real_of_int ((?f + 1) * 2 ^ n - 1)"
    by (simp only: of_int_le_iff)
  then have "nearest_double a b \<le> real_of_int ((?f + 1) * 2 ^ n - 1) / 2 ^ n"
    unfolding nd by (rule divide_right_mono) simp
  moreover have "real_of_int ((?f + 1) * 2 ^ n - 1) / 2 ^ n = real_of_int (?f + 1) - 1 / 2 ^ n"
    by (simp add: diff_divide_distrib)
  moreover have "(0::real) < 1 / 2 ^ n"
    by simp
  ultimately have upper: "nearest_double a b < of_int ?f + 1"
    by (simp only: of_int_add of_int_1)
  from lower upper show ?thesis
    by (rule floor_unique)
qed

lemma round_half_even_of_int: "round_half_even (of_int k) = k"
  using round_half_even_le [of "of_int k" k] round_half_even_ge [of k "of_int k"] by simp

lemma nearest_double_int:
  assumes "m < 2 ^ 53"
  shows "nearest_double m 1 = real m"
proof (cases "m = 0")
  case True
  then show ?thesis
    by (simp add: nearest_double_def)
next
  case False
  then have "0 < m"
    by simp
  from nearest_double_scaled [OF this assms, of 1] obtain n
    where "nearest_double m 1 = of_int (round_half_even (real m / real 1 * 2 ^ n)) / 2 ^ n"
    by auto
  moreover have "real m / real 1 * 2 ^ n = real_of_int (int m * 2 ^ n)"
    by simp
  ultimately have "nearest_double m 1 = real_of_int (int m * 2 ^ n) / 2 ^ n"
    by (simp only: round_half_even_of_int)
  then show ?thesis
    by simp
qed

lemma float_of_int_exact:
  assumes "\<bar>n\<bar> < 2 ^ 53"
  shows "float_of_int n = Inr n"
proof -
  from assms have "nat \<bar>n\<bar> < 2 ^ 53"
    by (simp add: nat_less_iff)
  then have r: "nearest_double (nat \<bar>n\<bar>) 1 = real (nat \<bar>n\<bar>)"
    by (rule nearest_double_int)
  have "real (nat \<bar>n\<bar>) < 2 ^ 53"
    using assms by (simp add: nat_less_iff of_nat_less_iff flip: of_nat_power)
  also have "(2::real) ^ 53 \<le> 2 ^ 1024"
    by (rule power_increasing) simp_all
  finally have "\<not> 2 ^ 1024 \<le> nearest_double (nat \<bar>n\<bar>) 1"
    unfolding r by simp
  moreover have "sgn n * \<lfloor>nearest_double (nat \<bar>n\<bar>) 1\<rfloor> = n"
    unfolding r by (simp add: sgn_if)
  ultimately show ?thesis
    unfolding float_of_int_def Let_def by (simp only: if_False)
qed


lemma ceil_div_exact:
  assumes "\<bar>a\<bar> < 2 ^ 53" "\<bar>b\<bar> < 2 ^ 53" "b \<noteq> 0"
  shows "ceil_div a b = Inr \<lceil>real_of_int a / real_of_int b\<rceil>"
proof -
  let ?m = "nat \<bar>a\<bar>" and ?n = "nat \<bar>b\<bar>"
  let ?q = "real ?m / real ?n"
  have n: "0 < ?n" "?n < 2 ^ 53"
    using assms(2,3) by (simp_all add: nat_less_iff)
  have m: "?m < 2 ^ 53"
    using assms(1) by (simp add: nat_less_iff)
  have quotient: "real_of_int a / real_of_int b = of_int (sgn a * sgn b) * ?q"
    by (simp add: sgn_if abs_if)
  have "\<lceil>float_div a b\<rceil> = \<lceil>real_of_int a / real_of_int b\<rceil>"
  proof (cases "a = 0")
    case True
    then show ?thesis
      by (simp add: float_div_def)
  next
    case False
    then have m0: "0 < ?m"
      by simp
    note c = nearest_double_ceiling [OF m0 m n] and f = nearest_double_floor [OF m0 m n]
    show ?thesis
    proof (cases "sgn a * sgn b = 1")
      case True
      with c show ?thesis
        by (simp add: float_div_def quotient)
    next
      case False
      with \<open>a \<noteq> 0\<close> assms(3) have minus: "sgn a * sgn b = - 1"
        by (auto simp: sgn_if split: if_splits)
      have "\<lceil>- nearest_double ?m ?n\<rceil> = \<lceil>- ?q\<rceil>"
        using f by (simp only: ceiling_minus)
      then show ?thesis
        by (simp add: float_div_def quotient minus)
    qed
  qed
  then show ?thesis
    using assms by (simp add: ceil_div_def float_of_int_exact)
qed

lemma ceil_div_zero:
  assumes "\<bar>a\<bar> < 2 ^ 53"
  shows "ceil_div a 0 = Inl ZeroDivisionError"
  using assms by (simp add: ceil_div_def float_of_int_exact)


lemma nearest_double_overflow:
  assumes "2 ^ 1024 \<le> m"
  shows "2 ^ 1024 \<le> nearest_double m 1"
proof -
  let ?e = "exponent m 1"
  let ?u = "(2::real) powi (?e - 52)"
  have m: "0 < m"
    using assms by (cases "m = 0") auto
  have "real (2 ^ 1024) \<le> real m"
    using assms by (simp only: of_nat_le_iff)
  then have big: "(2::real) ^ 1024 \<le> real m"
    by simp
  from exponent_bounds [OF m, of 1] have eb: "2 powi ?e \<le> real m" "real m < 2 powi (?e + 1)"
    by simp_all
  from big eb(2) have "(2::real) powi 1024 < 2 powi (?e + 1)"
    by simp
  then have e: "1024 \<le> ?e"
    using power_int_increasing [of "?e + 1" 1024 "2::real"] by (cases "1024 \<le> ?e") auto
  then have u: "(2::real) powi (max (?e - 52) (- 1074)) = ?u"
    by simp
  have "(2::real) powi (52 + (?e - 52)) = 2 powi 52 * ?u"
    by (rule power_int_add) simp
  then have split: "(2::real) powi ?e = 2 ^ 52 * ?u"
    by simp
  have nd: "nearest_double m 1 = real_of_int (round_half_even (real m / ?u)) * ?u"
    using m unfolding nearest_double_def Let_def u by simp
  have "(2::real) ^ 52 = 2 powi ?e / ?u"
    unfolding split by simp
  also have "\<dots> \<le> real m / ?u"
    using eb(1) by (intro divide_right_mono) auto
  finally have "real_of_int (2 ^ 52) \<le> real m / ?u"
    by simp
  then have "2 ^ 52 \<le> round_half_even (real m / ?u)"
    by (rule round_half_even_ge)
  then have "real_of_int (2 ^ 52) \<le> real_of_int (round_half_even (real m / ?u))"
    by (simp only: of_int_le_iff)
  then have "(2::real) ^ 52 \<le> real_of_int (round_half_even (real m / ?u))"
    by simp
  then have "(2::real) ^ 52 * ?u \<le> real_of_int (round_half_even (real m / ?u)) * ?u"
    by (intro mult_right_mono) auto
  then have "2 powi ?e \<le> nearest_double m 1"
    unfolding nd split .
  moreover have "(2::real) powi 1024 \<le> 2 powi ?e"
    using e by (intro power_int_increasing) auto
  ultimately show ?thesis
    by simp
qed

lemma float_of_int_overflow:
  assumes "2 ^ 1024 \<le> \<bar>n\<bar>"
  shows "float_of_int n = Inl OverflowError"
proof -
  from assms have "2 ^ 1024 \<le> nat \<bar>n\<bar>"
    by (simp add: nat_le_iff le_nat_iff)
  then have "2 ^ 1024 \<le> nearest_double (nat \<bar>n\<bar>) 1"
    by (rule nearest_double_overflow)
  then show ?thesis
    by (simp add: float_of_int_def Let_def)
qed

lemma ceil_div_overflow:
  "2 ^ 1024 \<le> \<bar>b\<bar> \<Longrightarrow> ceil_div a b = Inl OverflowError"
  "\<bar>b\<bar> < 2 ^ 53 \<Longrightarrow> 2 ^ 1024 \<le> \<bar>a\<bar> \<Longrightarrow> ceil_div a b = Inl OverflowError"
  by (simp_all add: ceil_div_def float_of_int_overflow float_of_int_exact)

text \<open>
  Past \<open>2 ^ 53\<close> the conversion rounds: \<open>10 ^ 17 + 1\<close> becomes \<open>10 ^ 17\<close>, and the quotient
  by \<open>10 ^ 17\<close> is exactly 1.
\<close>

lemma floorlog_examples:
  "floorlog 2 (Suc 0) = 1"
  "floorlog 2 100000000000000000 = 57"
  "floorlog 2 100000000000000001 = 57"
  using floorlog_eq [of 0 1] floorlog_eq [of 56 100000000000000000]
    floorlog_eq [of 56 100000000000000001]
  by simp_all

lemma float_of_int_rounded:
  "float_of_int 100000000000000001 = Inr 100000000000000000"
  "float_of_int 100000000000000000 = Inr 100000000000000000"
proof -
  have "exponent 100000000000000001 1 = 56" "exponent 100000000000000000 1 = 56"
    by (simp_all add: exponent_def floorlog_examples Let_def)
  then have "nearest_double 100000000000000001 1 = 100000000000000000"
    and "nearest_double 100000000000000000 1 = 100000000000000000"
    by (simp_all add: nearest_double_def round_half_even_def Let_def)
  then show "float_of_int 100000000000000001 = Inr 100000000000000000"
    and "float_of_int 100000000000000000 = Inr 100000000000000000"
    by (simp_all add: float_of_int_def Let_def)
qed

lemma ceil_div_rounded: "ceil_div 100000000000000001 100000000000000000 = Inr 1"
proof -
  have "exponent 100000000000000000 100000000000000000 = 0"
    by (simp add: exponent_def floorlog_examples Let_def)
  then have "nearest_double 100000000000000000 100000000000000000 = 1"
    by (simp add: nearest_double_def round_half_even_def Let_def)
  then show ?thesis
    by (simp add: ceil_div_def float_of_int_rounded float_div_def)
qed

subsection \<open>Demand\<close>

lemma demand_exact:
  assumes "get_or (runnablesPerMachine tc) 10 \<noteq> 0"
    and "\<bar>get_or (runnablesPerMachine tc) 10\<bar> < 2 ^ 53"
    and "max (n - get_or (ignoredRunnables tc) 0) 0 < 2 ^ 53"
  shows "demand tc n =
      Inr (spec_wanted n (get_or (ignoredRunnables tc) 0) (get_or (runnablesPerMachine tc) 10),
           spec_allowed
             (spec_wanted n (get_or (ignoredRunnables tc) 0)
                (get_or (runnablesPerMachine tc) 10))
             (get_or (minMachines tc) 0) (get_or (maxMachines tc) 1))"
proof -
  have "\<bar>max (n - get_or (ignoredRunnables tc) 0) 0\<bar> < 2 ^ 53"
    using assms(3) by simp
  from ceil_div_exact [OF this assms(2,1)] show ?thesis
    by (simp add: demand_def Let_def spec_wanted_def spec_allowed_def)
qed

lemma demand_policy_big:
  "\<bar>n\<bar> < 2 ^ 53 \<Longrightarrow>
   demand policy_big n =
     Inr (\<lceil>real_of_int (max n 0) / 10\<rceil>, min (max \<lceil>real_of_int (max n 0) / 10\<rceil> 2) 3)"
  using demand_exact [of policy_big n]
  by (simp add: policy_big_def spec_wanted_def spec_allowed_def)

text \<open>
  C4. For a machine type with a policy entry whose \<^verbatim>\<open>runnablesPerMachine\<close> is not zero
  and below \<open>2 ^ 53\<close> in absolute value, and with
  \<open>max (runnable - ignoredRunnables) 0\<close> below \<open>2 ^ 53\<close>, the sizer computes
  \<open>wanted = ceil (max (runnable - ignoredRunnables) 0 / runnablesPerMachine)\<close> and
  \<open>allowed = min (max wanted minMachines) maxMachines\<close>, where \<open>runnable\<close> is 0 for a type
  that the status does not list. For such a type, with \<open>ignoredRunnables\<close> and
  \<open>minMachines\<close> not negative and \<open>minMachines \<le> maxMachines\<close>, the demand is
  \<open>minMachines\<close>.
\<close>

theorem size_type_demand:
  assumes "map_of (systemTypes cfg) t = Some tc"
    and "get_or (runnablesPerMachine tc) 10 \<noteq> 0"
    and "\<bar>get_or (runnablesPerMachine tc) 10\<bar> < 2 ^ 53"
    and "max ((case map_of (machineTypes status) t of None \<Rightarrow> 0 | Some ts \<Rightarrow> runnable ts)
              - get_or (ignoredRunnables tc) 0) 0 < 2 ^ 53"
  shows "size_type cfg status t =
      Inr (Some (spec_wanted (case map_of (machineTypes status) t of
                                None \<Rightarrow> 0 | Some ts \<Rightarrow> runnable ts)
                   (get_or (ignoredRunnables tc) 0) (get_or (runnablesPerMachine tc) 10),
                 spec_allowed
                   (spec_wanted (case map_of (machineTypes status) t of
                                   None \<Rightarrow> 0 | Some ts \<Rightarrow> runnable ts)
                      (get_or (ignoredRunnables tc) 0) (get_or (runnablesPerMachine tc) 10))
                   (get_or (minMachines tc) 0) (get_or (maxMachines tc) 1))) \<and>
    (map_of (machineTypes status) t = None \<and> 0 \<le> get_or (ignoredRunnables tc) 0 \<and>
      0 \<le> get_or (minMachines tc) 0 \<and>
      get_or (minMachines tc) 0 \<le> get_or (maxMachines tc) 1
      \<longrightarrow> size_type cfg status t = Inr (Some (0, get_or (minMachines tc) 0)))"
proof -
  let ?n = "case map_of (machineTypes status) t of None \<Rightarrow> 0 | Some ts \<Rightarrow> runnable ts"
  have n: "runnable (get_or (map_of (machineTypes status) t) \<lparr>runnable = 0, lastActive = None\<rparr>)
      = ?n"
    by (cases "map_of (machineTypes status) t") simp_all
  note d = demand_exact [OF assms(2,3,4)]
  have first: "size_type cfg status t =
      Inr (Some (spec_wanted ?n (get_or (ignoredRunnables tc) 0)
                   (get_or (runnablesPerMachine tc) 10),
                 spec_allowed
                   (spec_wanted ?n (get_or (ignoredRunnables tc) 0)
                      (get_or (runnablesPerMachine tc) 10))
                   (get_or (minMachines tc) 0) (get_or (maxMachines tc) 1)))"
    unfolding size_type_def Let_def n by (simp add: assms(1) d)
  have "spec_wanted 0 (get_or (ignoredRunnables tc) 0) (get_or (runnablesPerMachine tc) 10) = 0"
    if "0 \<le> get_or (ignoredRunnables tc) 0"
    using that by (simp add: spec_wanted_def)
  with first show ?thesis
    by (auto simp: spec_allowed_def)
qed

theorem size_type_demand_witness:
  "map_of (systemTypes cfg_big) ''x86_64-linux:big'' = Some policy_big \<and>
   get_or (runnablesPerMachine policy_big) 10 \<noteq> 0 \<and>
   \<bar>get_or (runnablesPerMachine policy_big) 10\<bar> < 2 ^ 53 \<and>
   max ((case map_of (machineTypes status_cold) ''x86_64-linux:big'' of
           None \<Rightarrow> 0 | Some ts \<Rightarrow> runnable ts)
        - get_or (ignoredRunnables policy_big) 0) 0 < 2 ^ 53 \<and>
   size_type cfg_big status_cold ''x86_64-linux:big'' = Inr (Some (3, 3)) \<and>
   map_of (machineTypes status_idle) ''x86_64-linux:big'' = None \<and>
   0 \<le> get_or (ignoredRunnables policy_big) 0 \<and>
   0 \<le> get_or (minMachines policy_big) 0 \<and>
   get_or (minMachines policy_big) 0 \<le> get_or (maxMachines policy_big) 1 \<and>
   size_type cfg_big status_idle ''x86_64-linux:big'' = Inr (Some (0, 2))"
proof -
  have h1: "map_of (systemTypes cfg_big) ''x86_64-linux:big'' = Some policy_big"
    by (simp add: cfg_big_def)
  have h2: "get_or (runnablesPerMachine policy_big) 10 \<noteq> 0"
    and h3: "\<bar>get_or (runnablesPerMachine policy_big) 10\<bar> < 2 ^ 53"
    by (simp_all add: policy_big_def)
  have h4: "max ((case map_of (machineTypes status_cold) ''x86_64-linux:big'' of
                    None \<Rightarrow> 0 | Some ts \<Rightarrow> runnable ts)
                 - get_or (ignoredRunnables policy_big) 0) 0 < 2 ^ 53"
    and h5: "max ((case map_of (machineTypes status_idle) ''x86_64-linux:big'' of
                    None \<Rightarrow> 0 | Some ts \<Rightarrow> runnable ts)
                 - get_or (ignoredRunnables policy_big) 0) 0 < 2 ^ 53"
    by (simp_all add: policy_big_def status_cold_def status_idle_def)
  have h6: "map_of (machineTypes status_idle) ''x86_64-linux:big'' = None \<and>
      0 \<le> get_or (ignoredRunnables policy_big) 0 \<and>
      0 \<le> get_or (minMachines policy_big) 0 \<and>
      get_or (minMachines policy_big) 0 \<le> get_or (maxMachines policy_big) 1"
    by (simp add: policy_big_def status_idle_def)
  from size_type_demand [OF h1 h2 h3 h4]
  have "size_type cfg_big status_cold ''x86_64-linux:big'' =
          Inr (Some (spec_wanted 25 0 10, spec_allowed (spec_wanted 25 0 10) 2 3))"
    by (simp add: policy_big_def status_cold_def)
  moreover have "spec_wanted 25 0 10 = 3"
    by (simp add: spec_wanted_def ceiling_divide_eq_div)
  ultimately have cold: "size_type cfg_big status_cold ''x86_64-linux:big'' = Inr (Some (3, 3))"
    by (simp add: spec_allowed_def)
  from size_type_demand [OF h1 h2 h3 h5] h6
  have "size_type cfg_big status_idle ''x86_64-linux:big'' =
          Inr (Some (0, get_or (minMachines policy_big) 0))"
    by blast
  then have "size_type cfg_big status_idle ''x86_64-linux:big'' = Inr (Some (0, 2))"
    by (simp add: policy_big_def)
  with h1 h2 h3 h4 h6 cold show ?thesis
    by blast
qed

text \<open>
  Where the claim fails. With \<open>10 ^ 17 + 1\<close> runnable jobs and \<open>10 ^ 17\<close> per machine the
  double quotient is 1 where the ceiling of the exact quotient is 2; a
  \<^verbatim>\<open>runnablesPerMachine\<close> of \<open>2 ^ 1024\<close> or of 0 raises; and a type that the status does
  not list has demand 1, not its \<^verbatim>\<open>minMachines\<close> of 0, when \<^verbatim>\<open>ignoredRunnables\<close> is
  \<open>- 5\<close>, and demand 0, not its \<^verbatim>\<open>minMachines\<close> of \<open>- 1\<close>, when that is negative.
\<close>

theorem size_type_rounds:
  "size_type (cfg_of (policy_big\<lparr>runnablesPerMachine := Some 100000000000000000,
                                  minMachines := Some 0\<rparr>))
     (status_of 100000000000000001) ''x86_64-linux:big'' = Inr (Some (1, 1)) \<and>
   spec_wanted 100000000000000001 0 100000000000000000 = 2 \<and>
   size_type (cfg_of (policy_big\<lparr>runnablesPerMachine := Some (2 ^ 1024)\<rparr>))
     (status_of 25) ''x86_64-linux:big'' = Inl OverflowError \<and>
   size_type (cfg_of (policy_big\<lparr>runnablesPerMachine := Some 0\<rparr>))
     (status_of 25) ''x86_64-linux:big'' = Inl ZeroDivisionError \<and>
   map_of (machineTypes status_idle) ''x86_64-linux:big'' = None \<and>
   size_type (cfg_of (policy_big\<lparr>ignoredRunnables := Some (- 5), minMachines := Some 0\<rparr>))
     status_idle ''x86_64-linux:big'' = Inr (Some (1, 1)) \<and>
   size_type (cfg_of (policy_big\<lparr>minMachines := Some (- 1)\<rparr>))
     status_idle ''x86_64-linux:big'' = Inr (Some (0, 0))"
proof (intro conjI)
  show "size_type (cfg_of (policy_big\<lparr>runnablesPerMachine := Some 100000000000000000,
                                       minMachines := Some 0\<rparr>))
     (status_of 100000000000000001) ''x86_64-linux:big'' = Inr (Some (1, 1))"
    by (simp add: size_type_def demand_def Let_def cfg_of_def status_of_def policy_big_def
        ceil_div_rounded)
  show "spec_wanted 100000000000000001 0 100000000000000000 = 2"
    by (simp add: spec_wanted_def ceiling_divide_eq_div)
  have "ceil_div 25 (2 ^ 1024) = Inl OverflowError"
    by (rule ceil_div_overflow) simp
  then show "size_type (cfg_of (policy_big\<lparr>runnablesPerMachine := Some (2 ^ 1024)\<rparr>))
     (status_of 25) ''x86_64-linux:big'' = Inl OverflowError"
    by (simp add: size_type_def demand_def Let_def cfg_of_def status_of_def policy_big_def)
  have "ceil_div 25 0 = Inl ZeroDivisionError"
    by (rule ceil_div_zero) simp
  then show "size_type (cfg_of (policy_big\<lparr>runnablesPerMachine := Some 0\<rparr>))
     (status_of 25) ''x86_64-linux:big'' = Inl ZeroDivisionError"
    by (simp add: size_type_def demand_def Let_def cfg_of_def status_of_def policy_big_def)
  show "map_of (machineTypes status_idle) ''x86_64-linux:big'' = None"
    by (simp add: status_idle_def)
  have "ceil_div 5 10 = Inr \<lceil>real_of_int 5 / real_of_int 10\<rceil>"
    by (rule ceil_div_exact) simp_all
  moreover have "\<lceil>(1::real) / 2\<rceil> = 1"
    by (rule ceiling_unique) simp_all
  ultimately have "ceil_div 5 10 = Inr 1"
    by simp
  then show "size_type (cfg_of (policy_big\<lparr>ignoredRunnables := Some (- 5),
                                            minMachines := Some 0\<rparr>))
     status_idle ''x86_64-linux:big'' = Inr (Some (1, 1))"
    by (simp add: size_type_def demand_def Let_def cfg_of_def status_idle_def policy_big_def)
  have "ceil_div 0 10 = Inr \<lceil>real_of_int 0 / real_of_int 10\<rceil>"
    by (rule ceil_div_exact) simp_all
  then have "ceil_div 0 10 = Inr 0"
    by simp
  then show "size_type (cfg_of (policy_big\<lparr>minMachines := Some (- 1)\<rparr>))
     status_idle ''x86_64-linux:big'' = Inr (Some (0, 0))"
    by (simp add: size_type_def demand_def Let_def cfg_of_def status_idle_def policy_big_def)
qed

text \<open>The cold start of the specification: 25 runnable jobs, 10 per machine, at most 3.\<close>

lemma size_type_cold_start:
  "size_type cfg_big
     (status_idle\<lparr>machineTypes := [(''x86_64-linux:big'', \<lparr>runnable = 25, lastActive = None\<rparr>)]\<rparr>)
     ''x86_64-linux:big'' = Inr (Some (3, 3))"
  using demand_policy_big [of 25]
  by (simp add: size_type_def Let_def cfg_big_def status_idle_def ceiling_divide_eq_div)

section \<open>Properties of the retention pass\<close>

text \<open>
  The third rule, for a deployment with running jobs: it is kept in \<open>in_use\<close>, and it is
  put among the \<open>unusable\<close> ones when its grace period is positive.
\<close>

lemma retain_active:
  assumes "uuid d \<notin> in_use s" "depl_state d \<in> {UP, STARTING}"
    "get_depl_time_left now d < 30 * 60" "machine d = Some m" "has_current_jobs status m"
  shows "retain cfg status now d s =
     Inr (s\<lparr>in_use := insert (uuid d) (in_use s),
            unusable := (if 0 < (case map_of (systemTypes cfg) (get_depl_arg d ''type'' []) of
                                    None \<Rightarrow> 0 | Some tc \<Rightarrow> get_or (gracePeriod tc) 0)
                         then insert (uuid d) (unusable s) else unusable s)\<rparr>)"
  using assms by (simp add: retain_def Let_def)

text \<open>
  C1. The claim is that a deployment with running jobs is kept in \<open>in_use\<close> and is put
  among the \<open>unusable\<close> ones exactly when the grace period of its type is 0. The script
  keeps it in \<open>in_use\<close>, and tests \<^verbatim>\<open>grace_period > 0\<close> where its own comment ("If this
  machine doesn't have a grace period, then don't add it to the machines list") asks for
  the opposite: with a grace period of 0 and two running jobs the worker is not
  \<open>unusable\<close>, and with a grace period of 600 it is.
\<close>

theorem retain_active_zero_grace:
  "retain cfg_big status_busy 1000 worker7 no_sets =
     Inr \<lparr>in_use = {7}, expired = {}, unusable = {}\<rparr> \<and>
   retain cfg_warm status_busy 1000 worker7 no_sets =
     Inr \<lparr>in_use = {7}, expired = {}, unusable = {7}\<rparr>"
  by (simp add: retain_def Let_def example_defs depl_state_def get_depl_time_left_def
       get_depl_arg_def has_current_jobs_def)

text \<open>
  C9. Rule 4: a deployment that is up or starting, has less than 30 minutes of paid time
  and no running job. The time its type was last active is what the status reports, or
  \<open>now - uptime + 1800\<close> when the status has no entry for the type, no \<open>lastActive\<close> in
  it, or 0. The deployment is kept in \<open>in_use\<close> exactly when \<open>now - lastActive\<close> is
  below the grace period, and is expired otherwise.
\<close>

theorem retain_grace_period:
  assumes "uuid d \<notin> in_use s" "depl_state d \<in> {UP, STARTING}"
    "get_depl_time_left now d < 30 * 60" "machine d = Some m" "\<not> has_current_jobs status m"
  shows "retain cfg status now d s =
     Inr (if now - (case map_of (machineTypes status) (get_depl_arg d ''type'' []) of
                      None \<Rightarrow> now - uptime status + 1800
                    | Some ts \<Rightarrow>
                        (case lastActive ts of
                           None \<Rightarrow> now - uptime status + 1800
                         | Some la \<Rightarrow> if la = 0 then now - uptime status + 1800 else la))
              < (case map_of (systemTypes cfg) (get_depl_arg d ''type'' []) of
                   None \<Rightarrow> 0 | Some tc \<Rightarrow> get_or (gracePeriod tc) 0)
          then s\<lparr>in_use := insert (uuid d) (in_use s)\<rparr>
          else s\<lparr>expired := insert (uuid d) (expired s)\<rparr>)"
  using assms by (auto simp add: retain_def Let_def last_active_of_def split: option.splits)

text \<open>
  The worker was last active 120 seconds ago (at 880, the clock reads 1000) and the
  grace period is 600: it is kept.
\<close>

theorem retain_grace_period_witness:
  "uuid worker7 \<notin> in_use no_sets \<and> depl_state worker7 \<in> {UP, STARTING} \<and>
   get_depl_time_left 1000 worker7 < 30 * 60 \<and> machine worker7 = Some machine7 \<and>
   \<not> has_current_jobs status_recent machine7 \<and>
   retain cfg_warm status_recent 1000 worker7 no_sets =
     Inr \<lparr>in_use = {7}, expired = {}, unusable = {}\<rparr>"
proof -
  have h1: "uuid worker7 \<notin> in_use no_sets"
    by (simp add: example_defs)
  have h2: "depl_state worker7 \<in> {UP, STARTING}"
    by (simp add: example_defs depl_state_def)
  have h3: "get_depl_time_left 1000 worker7 < 30 * 60"
    by (simp add: example_defs get_depl_time_left_def)
  have h4: "machine worker7 = Some machine7"
    by (simp add: example_defs)
  have h5: "\<not> has_current_jobs status_recent machine7"
    by (simp add: example_defs has_current_jobs_def)
  have "retain cfg_warm status_recent 1000 worker7 no_sets =
          Inr \<lparr>in_use = {7}, expired = {}, unusable = {}\<rparr>"
    unfolding retain_grace_period [OF h1 h2 h3 h4 h5, of cfg_warm]
    by (simp add: example_defs get_depl_arg_def)
  with h1 h2 h3 h4 h5 show ?thesis
    by blast
qed

text \<open>
  C10, as the script has it. \<open>depl_state\<close> reports \<open>MISSING\<close> whenever the deployment has
  no machine object; the loop body reaches the dispatcher lookup of line 196 only for a
  deployment that is up or starting, which therefore has its machine; so
  \<^verbatim>\<open>m.get_ssh_name()\<close> never fails for want of a machine.
\<close>

theorem machine_present_at_lookup:
  "(machine d = None \<longrightarrow> depl_state d = MISSING) \<and>
   (lookup_reached now d s \<longrightarrow> depl_state d \<in> {UP, STARTING} \<and> machine d \<noteq> None) \<and>
   retain cfg status now d s \<noteq> Inl AttributeError"
  by (auto simp: depl_state_def lookup_reached_def retain_def Let_def split: option.splits)

theorem machine_present_at_lookup_witness:
  "machine (worker7\<lparr>machine := None\<rparr>) = None \<and>
   depl_state (worker7\<lparr>machine := None\<rparr>) = MISSING \<and>
   lookup_reached 1000 worker7 no_sets \<and>
   depl_state worker7 \<in> {UP, STARTING} \<and> machine worker7 \<noteq> None \<and>
   retain cfg_big status_busy 1000 worker7 no_sets \<noteq> Inl AttributeError"
proof -
  have h1: "machine (worker7\<lparr>machine := None\<rparr>) = None"
    by simp
  have h2: "lookup_reached 1000 worker7 no_sets"
    by (simp add: lookup_reached_def example_defs depl_state_def get_depl_time_left_def)
  from machine_present_at_lookup [of "worker7\<lparr>machine := None\<rparr>"] h1
  have c1: "depl_state (worker7\<lparr>machine := None\<rparr>) = MISSING"
    by blast
  from machine_present_at_lookup [of worker7 1000 no_sets cfg_big status_busy] h2
  have c2: "depl_state worker7 \<in> {UP, STARTING} \<and> machine worker7 \<noteq> None \<and>
            retain cfg_big status_busy 1000 worker7 no_sets \<noteq> Inl AttributeError"
    by blast
  from h1 h2 c1 c2 show ?thesis
    by blast
qed

text \<open>
  The claim C10 also says that \<open>depl_state\<close> reports \<open>MISSING\<close> only when there is no
  machine object. It reports the state of the machine, which can be \<open>MISSING\<close> itself.
\<close>

theorem missing_with_machine:
  "machine worker9 \<noteq> None \<and> depl_state worker9 = MISSING"
  by (simp add: example_defs depl_state_def)

section \<open>Properties of the retirement pass\<close>

lemma retire_target: "c \<in> set (retire cfg now e) \<Longrightarrow> call_target c = uuid e"
  by (auto simp: retire_def Let_def split: if_splits)

text \<open>
  C3, as the script has it. An expired deployment that is up or starting is neither
  stopped nor destroyed nor deleted while it has at least 10 minutes of paid time left.
\<close>

theorem retirement_paid_time:
  assumes "d \<in> set expired_depls" "distinct (map uuid expired_depls)"
    "depl_state d \<in> {UP, STARTING}" "10 * 60 \<le> get_depl_time_left now d"
  shows "\<forall>c \<in> set (retirement cfg now expired_depls). call_target c \<noteq> uuid d"
proof
  fix c
  assume "c \<in> set (retirement cfg now expired_depls)"
  then obtain e where e: "e \<in> set expired_depls" "c \<in> set (retire cfg now e)"
    by (auto simp: retirement_def)
  have own: "retire cfg now d = []"
    using assms(3,4) by (simp add: retire_def Let_def)
  show "call_target c \<noteq> uuid d"
  proof
    assume "call_target c = uuid d"
    with retire_target [OF e(2)] have "uuid e = uuid d"
      by simp
    with e(1) assms(1,2) have "e = d"
      by (meson distinct_map inj_onD)
    with e(2) own show False
      by simp
  qed
qed

theorem retirement_paid_time_witness:
  "worker10 \<in> set [worker8, worker10] \<and> distinct (map uuid [worker8, worker10]) \<and>
   depl_state worker10 \<in> {UP, STARTING} \<and> 10 * 60 \<le> get_depl_time_left 1000 worker10 \<and>
   retirement cfg_big 1000 [worker8, worker10] = [DestroyResources 8, Delete 8] \<and>
   uuid worker10 \<notin> call_target ` set (retirement cfg_big 1000 [worker8, worker10])"
proof -
  have h1: "worker10 \<in> set [worker8, worker10]"
    by simp
  have h2: "distinct (map uuid [worker8, worker10])"
    by (simp add: example_defs)
  have h3: "depl_state worker10 \<in> {UP, STARTING}"
    by (simp add: example_defs depl_state_def)
  have h4: "10 * 60 \<le> get_depl_time_left 1000 worker10"
    by (simp add: example_defs get_depl_time_left_def)
  have run: "retirement cfg_big 1000 [worker8, worker10] = [DestroyResources 8, Delete 8]"
    by (simp add: retirement_def retire_def Let_def example_defs depl_state_def
          get_depl_time_left_def get_depl_arg_def)
  from retirement_paid_time [OF h1 h2 h3 h4, of cfg_big]
  have none: "uuid worker10 \<notin> call_target ` set (retirement cfg_big 1000 [worker8, worker10])"
    by (auto simp only: image_iff)
  show ?thesis
    using h1 h2 h3 h4 run none by (intro conjI)
qed

text \<open>
  The claim C3 is stated for every lifecycle state. The script looks at the paid time
  only when the deployment is up or starting: a stopped deployment with an hour of paid
  time left is destroyed.
\<close>

theorem stopped_destroyed_in_paid_time:
  "10 * 60 \<le> get_depl_time_left 1000 worker8 \<and>
   DestroyResources (uuid worker8) \<in> set (retirement cfg_big 1000 [worker8])"
  by (simp add: example_defs retirement_def retire_def get_depl_time_left_def depl_state_def
        get_depl_arg_def Let_def)

section \<open>Properties of the names\<close>

text \<open>
  The loop of \<^verbatim>\<open>get_new_deployment_name\<close> returns the first candidate, from round
  \<open>i\<close> on, that is not among the names it was given.
\<close>

lemma find_name_spec:
  "\<exists>n\<ge>i. find_name prefix names i = candidate prefix n \<and> candidate prefix n \<notin> set names \<and>
          (\<forall>j. i \<le> j \<and> j < n \<longrightarrow> candidate prefix j \<in> set names)"
proof (induction prefix names i rule: find_name.induct)
  case (1 prefix names i)
  show ?case
  proof (cases "candidate prefix i \<in> set names")
    case False
    then show ?thesis
      by (auto simp: find_name.simps [of prefix names i] Let_def)
  next
    case True
    with 1 obtain n where n: "n \<ge> i + 1" "find_name prefix names (i + 1) = candidate prefix n"
      "candidate prefix n \<notin> set names"
      "\<forall>j. i + 1 \<le> j \<and> j < n \<longrightarrow> candidate prefix j \<in> set names"
      by auto
    have "\<forall>j. i \<le> j \<and> j < n \<longrightarrow> candidate prefix j \<in> set names"
    proof (intro allI impI)
      fix j assume "i \<le> j \<and> j < n"
      then show "candidate prefix j \<in> set names"
        using True n(4) by (cases "j = i") auto
    qed
    with n True show ?thesis
      by (intro exI [of _ n]) (auto simp: find_name.simps [of prefix names i] Let_def)
  qed
qed


lemma get_new_deployment_name_unused:
  "\<exists>n. get_new_deployment_name prefix ds = prefix @ ''-'' @ str_nat n \<and>
       get_new_deployment_name prefix ds \<notin> name ` set ds \<and>
       (\<forall>j<n. prefix @ ''-'' @ str_nat j \<in> name ` set ds)"
  using find_name_spec [of 0 prefix "map name ds"]
  by (auto simp: get_new_deployment_name_def candidate_def)

lemma name0: "get_new_deployment_name ''hydra-provisioned'' [] = ''hydra-provisioned-0''"
  by (simp add: get_new_deployment_name_def find_name.simps candidate_def str_nat.simps
        digit_char_def)

section \<open>Properties of the selection\<close>

lemma depls_accept [simp]: "depls (accept tc h s) = depls s"
  by (simp add: accept_def)

lemma depls_check [simp]: "depls (check chk h s) = depls s"
  by (simp add: check_def)

lemma created_check [simp]: "created (check chk h s) = created s"
  by (simp add: check_def)

lemma select_loop_empty_pool:
  assumes "existing s = []" "int (n_have s) < allowed"
  shows "select_loop tg t tc chk allowed s =
           (case create_deployment tg t s of (h, s1) \<Rightarrow> accept tc h s1)"
  using assms
  by (subst select_loop.simps) (simp add: create_deployment_def Let_def)

lemma select_loop_created:
  "(created (select_loop tg t tc chk allowed s) = created s \<and>
    depls (select_loop tg t tc chk allowed s) = depls s) \<or>
   (created (select_loop tg t tc chk allowed s) = created s + 1 \<and>
    (\<exists>h. depls (select_loop tg t tc chk allowed s) = depls s @ [h]))"
proof (induction tg t tc chk allowed s rule: select_loop.induct)
  case (1 tg t tc chk allowed s)
  show ?case
  proof (cases "int (n_have s) < allowed")
    case False
    then show ?thesis
      by (subst (1 2 3 4) select_loop.simps) simp
  next
    case more: True
    show ?thesis
    proof (cases "existing s")
      case Nil
      with more show ?thesis
        by (simp add: select_loop_empty_pool create_deployment_def Let_def)
    next
      case (Cons h rest)
      show ?thesis
      proof (cases "is_up s h")
        case up: True
        show ?thesis
        proof (cases "is_up (check chk h s) h")
          case False
          with "1.IH"(2) [OF more Cons up refl] more Cons up show ?thesis
            by (subst (1 2 3 4) select_loop.simps) (simp add: Let_def)
        next
          case True
          show ?thesis
          proof (cases "created s \<ge> 1")
            case True
            with \<open>is_up (check chk h s) h\<close> more Cons up show ?thesis
              by (subst (1 2 3 4) select_loop.simps) (simp add: Let_def)
          next
            case False
            with "1.IH"(3) [OF more Cons up refl _ refl] \<open>is_up (check chk h s) h\<close> more Cons up
            show ?thesis
              by (subst (1 2 3 4) select_loop.simps) (simp add: Let_def)
          qed
        qed
      next
        case down: False
        show ?thesis
        proof (cases "depl_state (store s h) = MISSING")
          case True
          with "1.IH"(4) [OF more Cons down] more Cons down show ?thesis
            by (subst (1 2 3 4) select_loop.simps) (simp add: Let_def)
        next
          case False
          show ?thesis
          proof (cases "created s \<ge> 1")
            case True
            with \<open>depl_state (store s h) \<noteq> MISSING\<close> more Cons down show ?thesis
              by (subst (1 2 3 4) select_loop.simps) (simp add: Let_def)
          next
            case False
            with "1.IH"(5) [OF more Cons down \<open>depl_state (store s h) \<noteq> MISSING\<close> refl]
              \<open>depl_state (store s h) \<noteq> MISSING\<close> more Cons down
            show ?thesis
              by (subst (1 2 3 4) select_loop.simps) (simp add: Let_def)
          qed
        qed
      qed
    qed
  qed
qed


text \<open>A property of the states that every step of the loop keeps holds of its result.\<close>

lemma select_loop_invariant:
  assumes "P s"
    and "\<And>s h. P s \<Longrightarrow> P (check chk h s)"
    and "\<And>s xs. P s \<Longrightarrow> P (s\<lparr>existing := xs\<rparr>)"
    and "\<And>s h. P s \<Longrightarrow> P (accept tc h s)"
    and "\<And>s. P s \<Longrightarrow> P (snd (create_deployment tg t s))"
  shows "P (select_loop tg t tc chk allowed s)"
  using assms
proof (induction tg t tc chk allowed s rule: select_loop.induct)
  case (1 tg t tc chk allowed s)
  note here = "1.prems"(1)
  note chk = "1.prems"(2) and upd = "1.prems"(3) and acc = "1.prems"(4) and cre = "1.prems"(5)
  note steps = "1.prems"(2-5)
  show ?case
  proof (cases "int (n_have s) < allowed")
    case False
    with here show ?thesis
      by (subst select_loop.simps) simp
  next
    case more: True
    show ?thesis
    proof (cases "existing s")
      case Nil
      have "P (accept tc (fst (create_deployment tg t s)) (snd (create_deployment tg t s)))"
        using here by (intro acc cre)
      with Nil more show ?thesis
        by (simp add: select_loop_empty_pool split_beta)
    next
      case (Cons h rest)
      show ?thesis
      proof (cases "is_up s h")
        case up: True
        show ?thesis
        proof (cases "is_up (check chk h s) h")
          case False
          have "P ((check chk h s)\<lparr>existing :=
                     sort_key (depl_sort_key (check chk h s)) (existing (check chk h s))\<rparr>)"
            using here by (intro upd chk)
          from "1.IH"(2) [OF more Cons up refl False this steps] False more Cons up
          show ?thesis
            by (subst select_loop.simps) (simp add: Let_def)
        next
          case True
          have next_state: "P (accept tc h ((check chk h s)\<lparr>existing := rest\<rparr>))"
            using here by (intro acc upd chk)
          show ?thesis
          proof (cases "created s \<ge> 1")
            case True
            with next_state \<open>is_up (check chk h s) h\<close> more Cons up show ?thesis
              by (subst select_loop.simps) (simp add: Let_def)
          next
            case False
            then have "\<not> 1 \<le> created (accept tc h ((check chk h s)\<lparr>existing := rest\<rparr>))"
              by simp
            from "1.IH"(3) [OF more Cons up refl _ refl this next_state steps]
              \<open>is_up (check chk h s) h\<close> False more Cons up
            show ?thesis
              by (subst select_loop.simps) (simp add: Let_def)
          qed
        qed
      next
        case down: False
        show ?thesis
        proof (cases "depl_state (store s h) = MISSING")
          case True
          have "P (s\<lparr>existing := rest\<rparr>)"
            using here by (intro upd)
          from "1.IH"(4) [OF more Cons down True this steps] True more Cons down show ?thesis
            by (subst select_loop.simps) (simp add: Let_def)
        next
          case False
          have next_state: "P (accept tc h (s\<lparr>existing := rest\<rparr>))"
            using here by (intro acc upd)
          show ?thesis
          proof (cases "created s \<ge> 1")
            case True
            with next_state \<open>depl_state (store s h) \<noteq> MISSING\<close> more Cons down show ?thesis
              by (subst select_loop.simps) (simp add: Let_def)
          next
            case False
            then have "\<not> 1 \<le> created (accept tc h (s\<lparr>existing := rest\<rparr>))"
              by simp
            from "1.IH"(5) [OF more Cons down \<open>depl_state (store s h) \<noteq> MISSING\<close> refl this
                next_state steps]
              \<open>depl_state (store s h) \<noteq> MISSING\<close> False more Cons down
            show ?thesis
              by (subst select_loop.simps) (simp add: Let_def)
          qed
        qed
      qed
    qed
  qed
qed


lemma fold_max_ge: "a \<le> fold max hs (a::nat)"
  by (induction hs arbitrary: a) (auto intro: order_trans [OF max.cobounded2])

lemma fold_max_member: "h \<in> set hs \<Longrightarrow> h \<le> fold max hs (a::nat)"
proof (induction hs arbitrary: a)
  case Nil
  then show ?case by simp
next
  case (Cons x xs)
  show ?case
  proof (cases "h = x")
    case True
    have "x \<le> max x a" by simp
    also have "\<dots> \<le> fold max xs (max x a)" by (rule fold_max_ge)
    finally show ?thesis using True by simp
  next
    case False
    with Cons show ?thesis by simp
  qed
qed

lemma fresh_new: "fresh hs \<notin> set hs"
  using fold_max_member [of "fresh hs" hs 0] by (auto simp: fresh_def)

lemma grown_refl: "grown tg t s s"
  by (auto simp: grown_def)

lemma grown_check: "grown tg t s0 s \<Longrightarrow> grown tg t s0 (check chk h s)"
  by (auto simp: grown_def check_def)

lemma grown_existing: "grown tg t s0 s \<Longrightarrow> grown tg t s0 (s\<lparr>existing := xs\<rparr>)"
  by (auto simp: grown_def)

lemma grown_accept: "grown tg t s0 s \<Longrightarrow> grown tg t s0 (accept tc h s)"
  by (auto simp: grown_def accept_def)

lemma grown_create:
  assumes "grown tg t s0 s"
  shows "grown tg t s0 (snd (create_deployment tg t s))"
proof -
  from assms obtain new where new: "all_depls s = all_depls s0 @ new" "depls s = depls s0 @ new"
    "distinct new" "set new \<inter> set (all_depls s0) = {}"
    "\<forall>h\<in>set new. args (store s h) = [(''type'', t), (''tag'', tg)]"
    "\<forall>h\<in>set (all_depls s0). args (store s h) = args (store s0 h)"
    by (auto simp: grown_def)
  let ?h = "fresh (all_depls s)"
  have h: "?h \<notin> set (all_depls s0)" "?h \<notin> set new"
    using fresh_new [of "all_depls s"] new(1) by auto
  show ?thesis
    unfolding grown_def
  proof (intro exI [of _ "new @ [?h]"] conjI)
    show "all_depls (snd (create_deployment tg t s)) = all_depls s0 @ new @ [?h]"
      by (simp add: create_deployment_def Let_def new)
    show "depls (snd (create_deployment tg t s)) = depls s0 @ new @ [?h]"
      by (simp add: create_deployment_def Let_def new)
    show "distinct (new @ [?h])"
      using new(3) h by simp
    show "set (new @ [?h]) \<inter> set (all_depls s0) = {}"
      using new(4) h by auto
    show "\<forall>k\<in>set (new @ [?h]).
            args (store (snd (create_deployment tg t s)) k) = [(''type'', t), (''tag'', tg)]"
      using new(5) by (auto simp: create_deployment_def Let_def)
    show "\<forall>k\<in>set (all_depls s0).
            args (store (snd (create_deployment tg t s)) k) = args (store s0 k)"
      using new(6) h by (auto simp: create_deployment_def Let_def)
  qed
qed

lemma select_loop_grown: "grown tg t s0 s \<Longrightarrow> grown tg t s0 (select_loop tg t tc chk allowed s)"
  by (rule select_loop_invariant [where P = "grown tg t s0"])
     (auto intro: grown_check grown_existing grown_accept grown_create)

lemma provision_type_new:
  assumes "provision_type chk cfg status t s = Inr s'"
  shows "\<exists>new. length new \<le> 1 \<and> all_depls s' = all_depls s @ new \<and> depls s' = depls s @ new \<and>
           set new \<inter> set (all_depls s) = {} \<and>
           (\<forall>h\<in>set new. map_of (args (store s' h)) ''type'' = Some t) \<and>
           (\<forall>h\<in>set (all_depls s). args (store s' h) = args (store s h))"
proof (cases "map_of (systemTypes cfg) t")
  case None
  with assms have "s' = s"
    by (auto simp: provision_type_def size_type_def Let_def)
  then show ?thesis
    by (intro exI [of _ "[]"]) simp
next
  case (Some tc)
  define s1 where "s1 = s\<lparr>existing := sort_key (depl_sort_key s)
      (filter (\<lambda>h. get_depl_arg (store s h) ''type'' [] = t) (depls s)), n_have := 0, created := 0\<rparr>"
  from assms Some obtain allowed where s': "s' = select_loop (tag cfg) t tc chk allowed s1"
    by (auto simp: provision_type_def size_type_def Let_def s1_def
          split: sum.splits option.splits)
  have "grown (tag cfg) t s s1"
    by (auto simp: grown_def s1_def)
  then have "grown (tag cfg) t s s'"
    unfolding s' by (rule select_loop_grown)
  then obtain new where new: "all_depls s' = all_depls s @ new" "depls s' = depls s @ new"
    "set new \<inter> set (all_depls s) = {}"
    "\<forall>h\<in>set new. args (store s' h) = [(''type'', t), (''tag'', tag cfg)]"
    "\<forall>h\<in>set (all_depls s). args (store s' h) = args (store s h)"
    by (auto simp: grown_def)
  from select_loop_created [of "tag cfg" t tc chk allowed s1] new(2)
  have "length new \<le> 1"
    by (auto simp: s' s1_def)
  with new show ?thesis
    by (intro exI [of _ new]) auto
qed


lemma provision_new:
  assumes "provision chk cfg status ts s = Inr s'" "distinct ts"
  shows "\<exists>new. all_depls s' = all_depls s @ new \<and> depls s' = depls s @ new \<and>
           set new \<inter> set (all_depls s) = {} \<and>
           (\<forall>h\<in>set new. \<exists>t\<in>set ts. created_type s' h = Some t) \<and>
           (\<forall>t. length (filter (\<lambda>h. created_type s' h = Some t) new) \<le> 1) \<and>
           (\<forall>h\<in>set (all_depls s). args (store s' h) = args (store s h))"
  using assms
proof (induction ts arbitrary: s)
  case Nil
  then show ?case
    by (intro exI [of _ "[]"]) simp
next
  case (Cons t ts)
  from Cons.prems(1) obtain s1 where s1: "provision_type chk cfg status t s = Inr s1"
    and rest: "provision chk cfg status ts s1 = Inr s'"
    by (auto split: sum.splits)
  from provision_type_new [OF s1] obtain new1 where new1: "length new1 \<le> 1"
    "all_depls s1 = all_depls s @ new1" "depls s1 = depls s @ new1"
    "set new1 \<inter> set (all_depls s) = {}"
    "\<forall>h\<in>set new1. map_of (args (store s1 h)) ''type'' = Some t"
    "\<forall>h\<in>set (all_depls s). args (store s1 h) = args (store s h)"
    by blast
  from Cons.prems(2) have "distinct ts" and t: "t \<notin> set ts"
    by auto
  from Cons.IH [OF rest \<open>distinct ts\<close>] obtain new2 where new2:
    "all_depls s' = all_depls s1 @ new2" "depls s' = depls s1 @ new2"
    "set new2 \<inter> set (all_depls s1) = {}"
    "\<forall>h\<in>set new2. \<exists>u\<in>set ts. created_type s' h = Some u"
    "\<forall>u. length (filter (\<lambda>h. created_type s' h = Some u) new2) \<le> 1"
    "\<forall>h\<in>set (all_depls s1). args (store s' h) = args (store s1 h)"
    by blast
  have type1: "created_type s' h = Some t" if "h \<in> set new1" for h
    using that new1(2,5) new2(6) by (simp add: created_type_def)
  have count: "length (filter (\<lambda>h. created_type s' h = Some u) (new1 @ new2)) \<le> 1" for u
  proof (cases "u = t")
    case True
    have "filter (\<lambda>h. created_type s' h = Some t) new2 = []"
      using new2(4) t by (auto simp: filter_empty_conv)
    moreover have "length (filter (\<lambda>h. created_type s' h = Some t) new1) \<le> 1"
      using new1(1) by (meson le_trans length_filter_le)
    ultimately show ?thesis
      using True by simp
  next
    case False
    have "filter (\<lambda>h. created_type s' h = Some u) new1 = []"
      using type1 False by (auto simp: filter_empty_conv)
    with new2(5) show ?thesis
      by simp
  qed
  show ?case
  proof (intro exI [of _ "new1 @ new2"] conjI)
    show "all_depls s' = all_depls s @ new1 @ new2"
      by (simp add: new1 new2)
    show "depls s' = depls s @ new1 @ new2"
      by (simp add: new1 new2)
    show "set (new1 @ new2) \<inter> set (all_depls s) = {}"
      using new1(2,4) new2(3) by auto
    show "\<forall>h\<in>set (new1 @ new2). \<exists>u\<in>set (t # ts). created_type s' h = Some u"
      using type1 new2(4) by auto
    show "\<forall>u. length (filter (\<lambda>h. created_type s' h = Some u) (new1 @ new2)) \<le> 1"
      using count by blast
    show "\<forall>h\<in>set (all_depls s). args (store s' h) = args (store s h)"
      using new1(2,6) new2(6) by simp
  qed
qed

lemma distinct_system_types: "distinct (system_types status cfg)"
  by (simp add: system_types_def)

lemma cold_run:
  "provision (\<lambda>m. m) cfg_big status_cold [''x86_64-linux:big''] cold_start = Inr cold_result"
proof -
  have size: "size_type cfg_big status_cold ''x86_64-linux:big'' = Inr (Some (3, 3))"
    using demand_policy_big [of 25]
    by (simp add: size_type_def Let_def cfg_big_def status_cold_def ceiling_divide_eq_div)
  have pool: "depls cold_start = []"
    "cold_start\<lparr>existing := [], n_have := 0, created := 0\<rparr> = cold_start"
    by (simp_all add: cold_start_def start_def)
  have loop: "select_loop ''hydra-provisioned'' ''x86_64-linux:big'' policy_big (\<lambda>m. m) 3 cold_start
      = cold_result"
    by (subst select_loop_empty_pool)
       (simp_all add: cold_start_def start_def create_deployment_def Let_def accept_def name0
          fresh_def cold_result_def policy_big_def)
  have policy: "tag cfg_big = ''hydra-provisioned''"
    "map_of (systemTypes cfg_big) ''x86_64-linux:big'' = Some policy_big"
    by (simp_all add: cfg_big_def)
  show ?thesis
    by (simp add: provision_type_def size policy pool loop)
qed


text \<open>
  C5. In one run over distinct machine types, the deployments that the run adds to
  \<^verbatim>\<open>depls\<close> hold at most one deployment created for any type. And the selection loop
  ends with a creation: from an empty pool and with \<open>have\<close> below \<open>allowed\<close>, whatever
  \<open>allowed\<close> is, the loop returns the state after one creation.
\<close>

theorem one_creation_per_type:
  assumes "provision chk cfg status type_names s = Inr s'" and "distinct type_names"
  shows "(\<exists>new. depls s' = depls s @ new \<and>
            (\<forall>t. length (filter (\<lambda>h. created_type s' h = Some t) new) \<le> 1)) \<and>
         (\<forall>tg t tc allowed p. existing p = [] \<and> int (n_have p) < allowed \<longrightarrow>
            select_loop tg t tc chk allowed p =
              (case create_deployment tg t p of (h, p1) \<Rightarrow> accept tc h p1))"
  using provision_new [OF assms] select_loop_empty_pool by blast


theorem one_creation_per_type_witness:
  "provision (\<lambda>m. m) cfg_big status_cold [''x86_64-linux:big''] cold_start = Inr cold_result \<and>
   distinct [''x86_64-linux:big''] \<and>
   existing cold_start = [] \<and> int (n_have cold_start) < 3 \<and>
   depls cold_start = [] \<and> depls cold_result = [1] \<and> int (n_have cold_result) < 3 \<and>
   (\<exists>new. depls cold_result = depls cold_start @ new \<and>
      (\<forall>t. length (filter (\<lambda>h. created_type cold_result h = Some t) new) \<le> 1)) \<and>
   select_loop ''hydra-provisioned'' ''x86_64-linux:big'' policy_big (\<lambda>m. m) 3 cold_start =
     (case create_deployment ''hydra-provisioned'' ''x86_64-linux:big'' cold_start of
        (h, p1) \<Rightarrow> accept policy_big h p1)"
proof -
  have h1: "provision (\<lambda>m. m) cfg_big status_cold [''x86_64-linux:big''] cold_start =
      Inr cold_result"
    by (rule cold_run)
  have h2: "distinct [''x86_64-linux:big'']"
    by simp
  have h3: "existing cold_start = [] \<and> int (n_have cold_start) < 3"
    by (simp add: cold_start_def start_def)
  have vals: "depls cold_start = []" "depls cold_result = [1]" "int (n_have cold_result) < 3"
    by (simp_all add: cold_start_def start_def cold_result_def)
  note run = one_creation_per_type [OF h1 h2]
  from run have c1: "\<exists>new. depls cold_result = depls cold_start @ new \<and>
      (\<forall>t. length (filter (\<lambda>h. created_type cold_result h = Some t) new) \<le> 1)"
    by (rule conjunct1)
  from run h3 have c2:
    "select_loop ''hydra-provisioned'' ''x86_64-linux:big'' policy_big (\<lambda>m. m) 3 cold_start =
     (case create_deployment ''hydra-provisioned'' ''x86_64-linux:big'' cold_start of
        (h, p1) \<Rightarrow> accept policy_big h p1)"
    by blast
  show ?thesis
    using h1 h2 h3 vals c1 c2 by (intro conjI) simp_all
qed

text \<open>
  C6. The claim is that a created name \<open>tag-n\<close> collides with no deployment that exists,
  also none with a different tag. The script looks for the name among \<^verbatim>\<open>depls\<close>, the
  deployments with its own tag (lemma \<open>get_new_deployment_name_unused\<close>), not among
  \<^verbatim>\<open>all_depls\<close>, which it keeps up to date for nothing else. With a deployment
  \<open>hydra-provisioned-0\<close> of the tag \<open>staging\<close> in the state file, the new deployment
  gets the same name.
\<close>

theorem name_collision:
  "map_sum id (\<lambda>s. (all_depls s, map (\<lambda>h. name (store s h)) (all_depls s)))
     (provision_type (\<lambda>m. m) cfg_big status_idle ''x86_64-linux:big'' foreign_start) =
   Inr ([1, 2], [''hydra-provisioned-0'', ''hydra-provisioned-0''])"
proof -
  have size: "size_type cfg_big status_idle ''x86_64-linux:big'' = Inr (Some (0, 2))"
    using demand_policy_big [of 0]
    by (simp add: size_type_def Let_def cfg_big_def status_idle_def)
  have policy: "tag cfg_big = ''hydra-provisioned''"
    "map_of (systemTypes cfg_big) ''x86_64-linux:big'' = Some policy_big"
    by (simp_all add: cfg_big_def)
  have pool: "depls foreign_start = []"
    "foreign_start\<lparr>existing := [], n_have := 0, created := 0\<rparr> = foreign_start"
    by (simp_all add: foreign_start_def start_def foreign_def get_depl_arg_def cfg_big_def)
  have empty: "existing foreign_start = []" "int (n_have foreign_start) < 2"
    by (simp_all add: foreign_start_def start_def)
  have loop: "select_loop ''hydra-provisioned'' ''x86_64-linux:big'' policy_big (\<lambda>m. m) 2
        foreign_start =
      (case create_deployment ''hydra-provisioned'' ''x86_64-linux:big'' foreign_start of
         (h, s1) \<Rightarrow> accept policy_big h s1)"
    by (rule select_loop_empty_pool [OF empty])
  have ours: "get_depl_arg foreign ''tag'' [] \<noteq> ''hydra-provisioned''"
    by (simp add: get_depl_arg_def foreign_def)
  have theirs: "name foreign = ''hydra-provisioned-0''"
    by (simp add: foreign_def)
  show ?thesis
    by (simp add: provision_type_def size policy pool loop)
       (simp add: create_deployment_def Let_def accept_def fresh_def name0 ours theirs policy
          foreign_start_def start_def)
qed


section \<open>Properties of the folding\<close>

text \<open>A status without a key that begins with \<^verbatim>\<open>i686-linux\<close> goes through unchanged.\<close>

lemma dict_len_of: "dict_len (dict_of kvs) = length kvs"
  by (simp add: dict_len_def dict_of_def)

lemma next_entry_of:
  "next_entry pos (dict_of kvs) =
     (if pos < length kvs then Some (pos, fst (kvs ! pos)) else None)"
proof (cases "pos < length kvs")
  case True
  then have "drop pos (map Some kvs) = Some (kvs ! pos) # drop (Suc pos) (map Some kvs)"
    by (simp add: Cons_nth_drop_Suc [symmetric])
  then show ?thesis
    using True by (cases "kvs ! pos") (simp add: next_entry_def dict_of_def)
next
  case False
  then show ?thesis
    by (simp add: next_entry_def dict_of_def)
qed

lemma squash_loop_plain:
  assumes "list_all (\<lambda>kv. \<not> startswith (fst kv) ''i686-linux'') kvs"
    and "pos + len = length kvs"
  shows "squash_loop (length kvs) len pos (dict_of kvs) = Inr (dict_of kvs)"
  using assms(2)
proof (induction len arbitrary: pos)
  case 0
  then show ?case
    by (simp add: dict_len_of next_entry_of)
next
  case (Suc len)
  then have pos: "pos < length kvs"
    by simp
  with assms(1) have "\<not> startswith (fst (kvs ! pos)) ''i686-linux''"
    by (simp add: list_all_length)
  then have "squash (fst (kvs ! pos)) (dict_of kvs) = Inr (dict_of kvs)"
    by (simp add: squash_def)
  moreover from Suc have "squash_loop (length kvs) len (pos + 1) (dict_of kvs) = Inr (dict_of kvs)"
    by simp
  ultimately show ?case
    using pos by (simp add: dict_len_of next_entry_of)
qed

lemma squash_i686_plain:
  assumes "list_all (\<lambda>kv. \<not> startswith (fst kv) ''i686-linux'') kvs"
  shows "squash_i686 (dict_of kvs) = Inr (dict_of kvs)"
  using squash_loop_plain [OF assms, of 0 "length kvs"]
  by (simp add: squash_i686_def dict_len_of)

text \<open>
  What deleting, adding and replacing do to the entries and to the size of the dict, and
  what the iterator finds.
\<close>

lemma dict_items_Cons:
  "dict_items (None # es) = dict_items es"
  "dict_items (Some kv # es) = kv # dict_items es"
  "dict_items [] = []"
  by (simp_all add: dict_items_def)

lemma dict_items_append: "dict_items (xs @ ys) = dict_items xs @ dict_items ys"
  by (simp add: dict_items_def)

lemma dict_len_items: "dict_len d = length (dict_items d)"
  by (induction d) (auto simp: dict_len_def dict_items_def split: option.splits)

lemma first_live_None: "first_live j es = None \<longleftrightarrow> dict_items es = []"
  by (induction j es rule: first_live.induct) (simp_all add: dict_items_Cons)

lemma first_live_Some:
  "first_live j es = Some (i, k) \<Longrightarrow>
     \<exists>v. j \<le> i \<and> i - j < length es \<and> es ! (i - j) = Some (k, v) \<and>
         dict_items es = (k, v) # dict_items (drop (i - j + 1) es)"
proof (induction j es rule: first_live.induct)
  case (1 j)
  then show ?case by simp
next
  case (2 j es)
  from 2 obtain v where v: "j + 1 \<le> i" "i - (j + 1) < length es"
    "es ! (i - (j + 1)) = Some (k, v)"
    "dict_items es = (k, v) # dict_items (drop (i - (j + 1) + 1) es)"
    by auto
  have "i - j = Suc (i - (j + 1))"
    using v(1) by simp
  with v show ?case
    by (intro exI [of _ v]) (simp add: dict_items_Cons)
next
  case (3 j k' v' es)
  then show ?case
    by (simp add: dict_items_Cons)
qed

lemma next_entry_None: "next_entry pos d = None \<longleftrightarrow> dict_items (drop pos d) = []"
  by (simp add: next_entry_def first_live_None)

lemma next_entry_Some:
  assumes "next_entry pos d = Some (i, k)"
  shows "\<exists>v. pos \<le> i \<and> i < length d \<and> d ! i = Some (k, v) \<and>
           dict_items (drop pos d) = (k, v) # dict_items (drop (i + 1) d)"
proof -
  from first_live_Some [OF assms [unfolded next_entry_def]]
  obtain v where v: "pos \<le> i" "i - pos < length (drop pos d)"
    "drop pos d ! (i - pos) = Some (k, v)"
    "dict_items (drop pos d) = (k, v) # dict_items (drop (i - pos + 1) (drop pos d))"
    by blast
  from v(1,2) have "i < length d"
    by simp
  moreover from v(1,2,3) have "d ! i = Some (k, v)"
    by simp
  moreover from v(1,4) have "dict_items (drop pos d) = (k, v) # dict_items (drop (i + 1) d)"
    by (simp add: add.commute)
  ultimately show ?thesis
    using v(1) by blast
qed


lemma has_key_simps [simp]:
  "has_key k None = False"
  "has_key k (Some (k', v)) = (k' = k)"
  by (simp_all add: has_key_def)

lemma dict_len_simps [simp]:
  "dict_len [] = 0"
  "dict_len (None # d) = dict_len d"
  "dict_len (Some kv # d) = Suc (dict_len d)"
  "dict_len (xs @ ys) = dict_len xs + dict_len ys"
  by (simp_all add: dict_len_def)

lemma dict_del_simps [simp]:
  "dict_del k [] = []"
  "dict_del k (e # d) = (if has_key k e then None else e) # dict_del k d"
  "dict_del k (xs @ ys) = dict_del k xs @ dict_del k ys"
  by (simp_all add: dict_del_def)

lemma dict_get_None: "dict_get d k = None \<longleftrightarrow> \<not> list_ex (has_key k) d"
proof (induction d)
  case Nil
  then show ?case
    by (simp add: dict_get_def dict_items_def)
next
  case (Cons e d)
  then show ?case
    by (cases e) (auto simp: dict_get_def dict_items_Cons)
qed

lemma has_key_member: "Some (k, v) \<in> set d \<Longrightarrow> list_ex (has_key k) d"
  by (induction d) auto

lemma dict_get_member: "Some (k, v) \<in> set d \<Longrightarrow> dict_get d k \<noteq> None"
  by (simp add: dict_get_None has_key_member)

lemma dict_len_del_le: "dict_len (dict_del k d) \<le> dict_len d"
proof (induction d)
  case Nil
  then show ?case by simp
next
  case (Cons e d)
  then show ?case by (cases e) auto
qed

lemma dict_len_del_member:
  "Some (k, v) \<in> set d \<Longrightarrow> dict_len (dict_del k d) < dict_len d"
proof (induction d)
  case Nil
  then show ?case by simp
next
  case (Cons e d)
  show ?case
  proof (cases "e = Some (k, v)")
    case True
    then show ?thesis
      using dict_len_del_le [of k d] by simp
  next
    case False
    with Cons have "dict_len (dict_del k d) < dict_len d"
      by simp
    then show ?thesis
      by (cases e) auto
  qed
qed

lemma dict_set_present:
  "list_ex (has_key t) d \<Longrightarrow>
     dict_set t w d = map (\<lambda>e. if has_key t e then Some (t, w) else e) d"
  by (simp add: dict_set_def)

lemma dict_len_map_set: "dict_len (map (\<lambda>e. if has_key t e then Some (t, w) else e) d) = dict_len d"
proof (induction d)
  case Nil
  then show ?case by simp
next
  case (Cons e d)
  then show ?case by (cases e) auto
qed

lemma merge_shrinks:
  assumes "Some (k, v) \<in> set d" "k \<noteq> t" "list_ex (has_key t) d"
  shows "dict_len (dict_del k (dict_set t w d)) < dict_len d"
proof -
  let ?d = "map (\<lambda>e. if has_key t e then Some (t, w) else e) d"
  from assms(1,2) have "Some (k, v) \<in> set ?d"
    by (auto simp: image_iff intro!: bexI [of _ "Some (k, v)"])
  from dict_len_del_member [OF this] show ?thesis
    by (simp add: dict_set_present [OF assms(3)] dict_len_map_set)
qed


lemma dict_del_same: "dict_len (dict_del k xs) = dict_len xs \<Longrightarrow> dict_del k xs = xs"
proof (induction xs)
  case Nil
  then show ?case by simp
next
  case (Cons e xs)
  show ?case
  proof (cases "has_key k e")
    case True
    with Cons.prems dict_len_del_le [of k xs] show ?thesis
      by (cases e) auto
  next
    case False
    with Cons show ?thesis
      by (cases e) auto
  qed
qed

lemma rename_step:
  assumes "i < length d" "d ! i = Some (k, v)" "k \<noteq> t" "\<not> list_ex (has_key t) d"
  shows "dict_len (dict_del k (dict_set t w d)) \<noteq> dict_len d \<or>
         dict_items (drop (i + 1) (dict_del k (dict_set t w d))) =
           dict_items (drop (i + 1) d) @ [(t, w)]"
proof (cases "dict_len (dict_del k (dict_set t w d)) = dict_len d")
  case False
  then show ?thesis
    by simp
next
  case True
  let ?a = "take i d" and ?b = "drop (i + 1) d"
  have d: "d = ?a @ Some (k, v) # ?b"
    using assms(1,2) id_take_nth_drop [of i d] by simp
  have new: "dict_set t w d = d @ [Some (t, w)]"
    using assms(4) by (simp add: dict_set_def)
  have "dict_len (dict_del k d) + 1 = dict_len d"
    using True assms(3) by (simp add: new)
  then have "dict_len (dict_del k ?a) + dict_len (dict_del k ?b) = dict_len ?a + dict_len ?b"
    by (subst (asm) (1 2) d) simp
  with dict_len_del_le [of k ?a] dict_len_del_le [of k ?b]
  have "dict_len (dict_del k ?b) = dict_len ?b"
    by linarith
  then have same: "dict_del k ?b = ?b"
    by (rule dict_del_same)
  have "drop (i + 1) (dict_del k (dict_set t w d)) = dict_del k ?b @ [Some (t, w)]"
    using assms(1,3) by (simp add: new dict_del_def drop_map)
  with same have "drop (i + 1) (dict_del k (dict_set t w d)) = ?b @ [Some (t, w)]"
    by simp
  then have "dict_items (drop (i + 1) (dict_del k (dict_set t w d))) =
      dict_items ?b @ [(t, w)]"
    by (simp only: dict_items_append dict_items_Cons)
  then show ?thesis
    by blast
qed

lemma replace_moves:
  assumes "startswith k ''i686-linux''"
  shows "replace_all ''i686-linux'' ''x86_64-linux'' k \<noteq> k"
proof (cases k)
  case Nil
  with assms show ?thesis
    by (simp add: startswith_def)
next
  case (Cons c cs)
  with assms have "c = CHR ''i''"
    by (auto simp: startswith_def)
  moreover from Cons assms
  have "hd (replace_all ''i686-linux'' ''x86_64-linux'' k) = CHR ''x''"
    by simp
  ultimately show ?thesis
    using Cons by auto
qed

text \<open>A stale iterator ends in \<^verbatim>\<open>RuntimeError\<close>, whatever the loop does before.\<close>

lemma squash_loop_stale:
  "stale len pos d \<Longrightarrow> squash_loop used len pos d = Inl RuntimeError"
proof (induction len arbitrary: pos d)
  case 0
  then have "dict_items (drop pos d) \<noteq> []"
    by (auto simp: stale_def)
  then obtain i k where "next_entry pos d = Some (i, k)"
    using next_entry_None [of pos d] by (cases "next_entry pos d") auto
  then show ?case
    by simp
next
  case (Suc len)
  show ?case
  proof (cases "dict_len d = used")
    case False
    then show ?thesis
      by simp
  next
    case True
    from Suc.prems have "dict_items (drop pos d) \<noteq> []"
      by (auto simp: stale_def)
    then obtain i k where nxt: "next_entry pos d = Some (i, k)"
      using next_entry_None [of pos d] by (cases "next_entry pos d") auto
    from next_entry_Some [OF nxt] obtain v where v: "pos \<le> i" "i < length d"
      "d ! i = Some (k, v)" "dict_items (drop pos d) = (k, v) # dict_items (drop (i + 1) d)"
      by blast
    from v(2,3) have member: "Some (k, v) \<in> set d"
      by (metis nth_mem)
    show ?thesis
    proof (cases "startswith k ''i686-linux''")
      case False
      with Suc.prems v(4) have "stale len (i + 1) d"
        by (auto simp: stale_def)
      from Suc.IH [OF this] False True nxt show ?thesis
        by (simp add: squash_def)
    next
      case i686: True
      let ?t = "replace_all ''i686-linux'' ''x86_64-linux'' k"
      from replace_moves [OF i686] have moved: "k \<noteq> ?t"
        by simp
      from dict_get_member [OF member] obtain ts where ts: "dict_get d k = Some ts"
        by auto
      show ?thesis
      proof (cases "dict_get d ?t")
        case None
        then have absent: "\<not> list_ex (has_key ?t) d"
          by (simp add: dict_get_None)
        let ?d' = "dict_del k (dict_set ?t ts d)"
        have step: "squash k d = Inr ?d'"
          using i686 ts None by (simp add: squash_def)
        have "squash_loop used len (i + 1) ?d' = Inl RuntimeError"
        proof (cases "dict_len ?d' = used")
          case False
          then show ?thesis
            by (cases len) simp_all
        next
          case same: True
          with rename_step [OF v(2,3) moved absent, of ts] True
          have "dict_items (drop (i + 1) ?d') = dict_items (drop (i + 1) d) @ [(?t, ts)]"
            by simp
          with Suc.prems v(4) have "stale len (i + 1) ?d'"
            by (auto simp: stale_def)
          then show ?thesis
            by (rule Suc.IH)
        qed
        with True nxt step show ?thesis
          by simp
      next
        case (Some target)
        then have present: "list_ex (has_key ?t) d"
          using dict_get_None [of d ?t] by auto
        let ?d' = "dict_del k (dict_set ?t (target\<lparr>runnable := runnable target + runnable ts\<rparr>) d)"
        have step: "squash k d = Inr ?d'"
          using i686 ts Some by (simp add: squash_def)
        from merge_shrinks [OF member moved present] True have "dict_len ?d' \<noteq> used"
          by (metis less_irrefl)
        then have "squash_loop used len (i + 1) ?d' = Inl RuntimeError"
          by (cases len) simp_all
        with True nxt step show ?thesis
          by simp
      qed
    qed
  qed
qed

text \<open>
  So the loop raises for every status that has a key beginning with \<^verbatim>\<open>i686-linux\<close>:
  the folding never completes when there is something to fold.
\<close>

lemma squash_i686_always_aborts:
  assumes "list_ex (\<lambda>kv. startswith (fst kv) ''i686-linux'') kvs"
  shows "squash_i686 (dict_of kvs) = Inl RuntimeError"
proof -
  have "dict_items (dict_of kvs) = kvs"
    by (induction kvs) (simp_all add: dict_of_def dict_items_Cons)
  with assms have "stale (dict_len (dict_of kvs)) 0 (dict_of kvs)"
    by (simp add: stale_def dict_len_items)
  then show ?thesis
    unfolding squash_i686_def by (rule squash_loop_stale)
qed


text \<open>
  The body of the loop does what the specification says: in scenario 2 it adds the 7
  jobs of \<^verbatim>\<open>i686-linux:\<close> to the 3 of \<^verbatim>\<open>x86_64-linux:\<close> and deletes the key.
\<close>

lemma squash_scenario2:
  "squash ''i686-linux:'' scenario2 =
     Inr [None, Some (''x86_64-linux:'', \<lparr>runnable = 10, lastActive = None\<rparr>)]"
  by (simp add: squash_def startswith_def dict_get_def dict_items_def dict_set_def dict_del_def
        has_key_def scenario2_def dict_of_def Let_def)

text \<open>
  C8. The claim is that the folding removes every key that begins with \<^verbatim>\<open>i686-linux\<close>,
  adding its runnable count to the \<^verbatim>\<open>x86_64-linux\<close> key or renaming it, and that the
  roster puts \<^verbatim>\<open>i686-linux\<close> back into the systems of a line. The roster does
  (lemma \<open>systems_of_reappend\<close> below). The folding loop, though, changes the dict it
  iterates over: after the body has deleted the key, the next step of the iteration
  raises \<^verbatim>\<open>RuntimeError\<close> and the run ends, both when the count is merged (scenario 2)
  and when the key is renamed.
\<close>

theorem squash_i686_aborts:
  "squash_i686 scenario2 = Inl RuntimeError \<and> squash_i686 only_i686 = Inl RuntimeError"
  by (simp add: squash_i686_def squash_def startswith_def dict_get_def dict_items_def
        dict_set_def dict_del_def has_key_def scenario2_def only_i686_def dict_of_def Let_def
        dict_len_def next_entry_def numeral_2_eq_2)


text \<open>
  The roster appends \<^verbatim>\<open>i686-linux\<close> to the systems of a type exactly when they hold
  \<^verbatim>\<open>x86_64-linux\<close> and not \<^verbatim>\<open>i686-linux\<close>.
\<close>

lemma systems_of_reappend:
  "systems_of t =
     (if ''x86_64-linux'' \<in> set (split_on CHR '','' (takeWhile (\<lambda>c. c \<noteq> CHR '':'') t)) \<and>
         ''i686-linux'' \<notin> set (split_on CHR '','' (takeWhile (\<lambda>c. c \<noteq> CHR '':'') t))
      then split_on CHR '','' (takeWhile (\<lambda>c. c \<noteq> CHR '':'') t) @ [''i686-linux'']
      else split_on CHR '','' (takeWhile (\<lambda>c. c \<noteq> CHR '':'') t))"
  by (simp add: systems_of_def Let_def)

lemma systems_of_folded: "systems_of ''x86_64-linux:'' = [''x86_64-linux'', ''i686-linux'']"
  by (simp add: systems_of_def)

section \<open>Properties of the roster\<close>


lemma str_join_Bytes: "Bytes b \<in> set cs \<Longrightarrow> str_join sep cs = Inl TypeError"
  by (induction sep cs rule: str_join.induct) auto





subsection \<open>Splitting and joining\<close>






lemma split_on_plain: "sep \<notin> set x \<Longrightarrow> split_on sep x = [x]"
  by (induction x) auto

lemma split_on_append:
  "sep \<notin> set x \<Longrightarrow> split_on sep (x @ sep # rest) = x # split_on sep rest"
  by (induction x) auto

lemma split_on_join:
  assumes "xs \<noteq> []" "\<forall>x\<in>set xs. sep \<notin> set x"
  shows "split_on sep (join [sep] xs) = xs"
  using assms
proof (induction "[sep]" xs rule: join.induct)
  case 1
  then show ?case by simp
next
  case (2 x)
  then show ?case by (simp add: split_on_plain)
next
  case (3 x y ys)
  then show ?case by (simp add: split_on_append)
qed




lemma split_on_examples:
  "split_on CHR '','' ''a,,bc'' = [''a'', [], ''bc'']"
  "split_on CHR '','' [] = [[]]"
  "split_on CHR '','' ''x86_64-linux,i686-linux,'' = [''x86_64-linux'', ''i686-linux'', []]"
  by simp_all

lemma b64encode_examples:
  "b64encode ''Man'' = ''TWFu''"
  "b64encode ''Ma'' = ''TWE=''"
  "b64encode ''M'' = ''TQ==''"
  "b64encode ''light work.'' = ''bGlnaHQgd29yay4=''"
  by (simp_all add: b64_char_def Let_def)

subsection \<open>The columns\<close>



lemma str_nat_digits: "set (str_nat n) \<subseteq> set ''0123456789''"
proof (induction n rule: str_nat.induct)
  case (1 n)
  have digit: "digit_char d \<in> set ''0123456789''" if "d < 10" for d
  proof -
    from that have "d \<in> {0, 1, 2, 3, 4, 5, 6, 7, 8, 9}"
      by auto
    then show ?thesis
      by (auto simp: digit_char_def)
  qed
  show ?case
  proof (cases "n < 10")
    case True
    then show ?thesis
      using digit [of n] by (subst str_nat.simps) simp
  next
    case False
    with 1 have "set (str_nat (n div 10)) \<subseteq> set ''0123456789''"
      by simp
    with False show ?thesis
      using digit [of "n mod 10"] by (subst str_nat.simps) simp
  qed
qed




lemma roster_columns_key:
  assumes "public_host_key m = Some key" "key \<noteq> []"
  shows "str_join sep (roster_columns m tc t) = Inl TypeError"
  using assms
  by (intro str_join_Bytes [of "b64encode key"]) (simp add: roster_columns_def Let_def)






subsection \<open>The fields of a line\<close>





subsection \<open>The lines\<close>



text \<open>
  A machine with a public host key has no line: its eighth column is a \<^verbatim>\<open>bytes\<close>
  object, and joining the columns raises.
\<close>

lemma machine_line_host_key:
  assumes "machine d = Some m" "public_host_key m = Some key" "key \<noteq> []"
  shows "\<exists>e. machine_line cfg d = Inl e"
  using assms roster_columns_key [OF assms(2,3), of "'' ''"]
  by (auto simp: machine_line_def Let_def split: option.splits)





end
